theory Spec2Isabelle
  imports Main "HOL-Library.Word" "HOL-Library.Signed_Division"
begin

unbundle bit_operations_syntax

section \<open>Machine types and byte-addressed memory\<close>

text \<open>
  The allocator is C for an LP64 little-endian target: \<^verbatim>\<open>int\<close> is 32 bits, \<^verbatim>\<open>size_t\<close>,
  \<^verbatim>\<open>intptr_t\<close> and pointers are 64 bits. Memory is a function from addresses to bytes, so
  that a store through an unaligned pointer overlaps its neighbours as it does on the
  machine. Every address holds a byte: an access that the hardware would refuse (an
  unmapped page) is not distinguished from one that succeeds.
\<close>

type_synonym addr = "64 word"
type_synonym cint = "32 word"
type_synonym byte = "8 word"
type_synonym memory = "addr \<Rightarrow> byte"

definition PAGE_SIZE :: addr where
  "PAGE_SIZE = 0x1000"

definition MAGIC_NUMBER :: cint where
  "MAGIC_NUMBER = 0xA991E"

definition MAP_FAILED :: addr where
  "MAP_FAILED = - 1"

definition EXIT_FAILURE :: nat where
  "EXIT_FAILURE = 1"

definition byte_of :: "nat \<Rightarrow> 'a::len word \<Rightarrow> byte" where
  "byte_of i v = ucast (drop_bit (8 * i) v)"

text \<open>Little-endian store and load of \<open>n\<close> bytes at address \<open>a\<close>.\<close>

definition store_le :: "memory \<Rightarrow> addr \<Rightarrow> nat \<Rightarrow> 'a::len word \<Rightarrow> memory" where
  "store_le m a n v = (\<lambda>x. if unat (x - a) < n then byte_of (unat (x - a)) v else m x)"

fun load_le :: "memory \<Rightarrow> addr \<Rightarrow> nat \<Rightarrow> 'a::len word" where
  "load_le m a 0 = 0"
| "load_le m a (Suc n) = ucast (m a) OR push_bit 8 (load_le m (a + 1) n)"

definition store64 :: "memory \<Rightarrow> addr \<Rightarrow> addr \<Rightarrow> memory" where
  "store64 m a v = store_le m a 8 v"

definition store32 :: "memory \<Rightarrow> addr \<Rightarrow> cint \<Rightarrow> memory" where
  "store32 m a v = store_le m a 4 v"

definition load64 :: "memory \<Rightarrow> addr \<Rightarrow> addr" where
  "load64 m a = load_le m a (Suc (Suc (Suc (Suc (Suc (Suc (Suc (Suc 0))))))))"

definition load32 :: "memory \<Rightarrow> addr \<Rightarrow> cint" where
  "load32 m a = load_le m a (Suc (Suc (Suc (Suc 0))))"

section \<open>Allocator state\<close>

text \<open>
  \<^verbatim>\<open>freelists\<close> is the global array of eight list heads. The other fields are the
  allocator's environment: \<open>os\<close> holds the addresses the operating system will answer to
  the coming \<^verbatim>\<open>mmap\<close> calls (\<open>MAP_FAILED\<close> or an exhausted list for a failure),
  \<open>stderr_ok\<close> tells whether a \<^verbatim>\<open>write\<close> to the error stream succeeds, \<open>diags\<close> records
  the diagnostics emitted and through which function, and \<open>carved\<close> records the pages on
  which \<^verbatim>\<open>allocate_blocks\<close> has run, one entry for each page-carve event.
\<close>

datatype diag = Perror string | Log_message string

datatype stop = Exit nat | Undefined | Diverges

record heap =
  mem :: memory
  freelists :: "addr list"
  os :: "addr list"
  stderr_ok :: bool
  diags :: "diag list"
  carved :: "addr list"

type_synonym 'a result = "(stop \<times> heap) + ('a \<times> heap)"

definition init :: "addr list \<Rightarrow> heap" where
  "init answers = \<lparr> mem = (\<lambda>_. 0), freelists = replicate 8 0, os = answers,
                     stderr_ok = True, diags = [], carved = [] \<rparr>"

text \<open>
  \<^verbatim>\<open>mmap(NULL, len, PROT_READ | PROT_WRITE, MAP_ANONYMOUS | ..., -1, 0)\<close>: a request of
  length 0 fails; otherwise the operating system gives its next answer, and the bytes of
  an anonymous mapping read as zero.
\<close>

definition mmap :: "heap \<Rightarrow> addr \<Rightarrow> addr \<times> heap" where
  "mmap st len =
     (if len = 0 then (MAP_FAILED, st)
      else case os st of
        [] \<Rightarrow> (MAP_FAILED, st)
      | r # rs \<Rightarrow>
          if r = MAP_FAILED then (MAP_FAILED, st\<lparr>os := rs\<rparr>)
          else (r, st\<lparr>os := rs, mem := (\<lambda>x. if x - r < len then 0 else mem st x)\<rparr>))"

definition perror :: "heap \<Rightarrow> string \<Rightarrow> heap" where
  "perror st s = st\<lparr>diags := diags st @ [Perror s]\<rparr>"

text \<open>\<^verbatim>\<open>log_message\<close>: writes the message with \<^verbatim>\<open>write\<close>; a failed write ends the process.\<close>

definition log_message :: "heap \<Rightarrow> string \<Rightarrow> (stop \<times> heap) + heap" where
  "log_message st message =
     (if stderr_ok st then Inr (st\<lparr>diags := diags st @ [Log_message message]\<rparr>)
      else Inl (Exit 2, st))"

section \<open>The size-class table\<close>

definition ROUND_UP :: "addr \<Rightarrow> addr \<Rightarrow> addr" where
  "ROUND_UP x y = (if x mod y = 0 then x else x + (y - x mod y))"

definition roundPowers :: "cint \<Rightarrow> cint" where
  "roundPowers sz =
     (if sz \<le>s 16 then 16
      else if sz \<le>s 32 then 32
      else if sz \<le>s 64 then 64
      else if sz \<le>s 128 then 128
      else if sz \<le>s 256 then 256
      else if sz \<le>s 512 then 512
      else if sz \<le>s 1024 then 1024
      else if sz \<le>s 2048 then 2048
      else - 1)"

text \<open>\<^verbatim>\<open>__builtin_ctzl\<close>: the number of trailing zero bits of a non-zero 64-bit value.\<close>

fun ctz_aux :: "nat \<Rightarrow> addr \<Rightarrow> nat" where
  "ctz_aux 0 w = 0"
| "ctz_aux (Suc n) w = (if bit w 0 then 0 else Suc (ctz_aux n (drop_bit 1 w)))"

definition ctzl :: "addr \<Rightarrow> nat" where
  "ctzl w = ctz_aux 64 w"

text \<open>
  \<^verbatim>\<open>roundPowersList\<close>: the \<^verbatim>\<open>int\<close> argument is converted to \<^verbatim>\<open>unsigned long\<close> (sign
  extension) for \<^verbatim>\<open>__builtin_ctzl\<close>, whose result is undefined at 0 (\<open>None\<close>).
\<close>

definition roundPowersList :: "cint \<Rightarrow> cint option" where
  "roundPowersList sz =
     (if (scast sz :: addr) = 0 then None
      else Some (word_of_nat (ctzl (scast sz)) - 4))"

text \<open>An index into \<^verbatim>\<open>freelists[8]\<close>; outside 0..7 the access is undefined.\<close>

definition slot :: "cint \<Rightarrow> nat option" where
  "slot index = (if 0 \<le>s index \<and> index <s 8 then Some (unat index) else None)"

section \<open>The page carver\<close>

text \<open>
  The loop of \<^verbatim>\<open>allocate_blocks\<close>. With a size of 0 the offset never grows and the loop
  does not end, so the loop is a partial function and \<open>None\<close> is the run that never
  returns.
\<close>

partial_function (option) carve_loop :: "memory \<Rightarrow> addr \<Rightarrow> addr \<Rightarrow> addr \<Rightarrow> (memory \<times> addr) option" where
  "carve_loop m blocked_page offset sz =
     (if offset < PAGE_SIZE
      then carve_loop (store64 m (blocked_page + offset) (blocked_page + (offset + sz)))
             blocked_page (offset + sz) sz
      else Some (m, offset))"

definition allocate_blocks :: "heap \<Rightarrow> addr \<Rightarrow> addr result" where
  "allocate_blocks st sz =
     (case mmap st PAGE_SIZE of (blocked_page, st1) \<Rightarrow>
        if blocked_page = - 1
        then Inl (Exit EXIT_FAILURE, perror st1 ''failed to allocate space'')
        else
          let m1 = store32 (mem st1) blocked_page MAGIC_NUMBER;
              m2 = store64 m1 (blocked_page + 8) sz
          in case carve_loop m2 blocked_page sz sz of
               None \<Rightarrow> Inl (Diverges, st1\<lparr>mem := m2\<rparr>)
             | Some (m3, offset) \<Rightarrow>
                 Inr (blocked_page + sz,
                      st1\<lparr>mem := store64 m3 (blocked_page + offset - sz) 0,
                          carved := carved st1 @ [blocked_page]\<rparr>))"

section \<open>The free lists and the three public operations\<close>

definition removeFirst :: "memory \<Rightarrow> addr \<Rightarrow> addr" where
  "removeFirst m lst = load64 m lst"

definition addFirst :: "memory \<Rightarrow> addr \<Rightarrow> addr \<Rightarrow> memory \<times> addr" where
  "addFirst m lst freeNode = (store64 m freeNode lst, freeNode)"

definition page_start :: "addr \<Rightarrow> addr" where
  "page_start free_address = free_address - word_of_int (sint free_address smod 0x1000)"

definition xxmalloc_usable_size :: "heap \<Rightarrow> addr \<Rightarrow> addr" where
  "xxmalloc_usable_size st ptr =
     (if ptr = 0 then 0
      else
        let header = page_start ptr
        in if load32 (mem st) header \<noteq> MAGIC_NUMBER then - 1
           else load64 (mem st) (header + 8))"

definition xxmalloc :: "heap \<Rightarrow> addr \<Rightarrow> addr result" where
  "xxmalloc st sz =
     (if sz > 2048 then
        (case mmap st (ROUND_UP sz PAGE_SIZE) of (p, st1) \<Rightarrow>
           if p = MAP_FAILED then
             (case log_message st1 (''mmap failed! Giving up.'' @ [CHR 0x0A]) of
                Inl e \<Rightarrow> Inl e
              | Inr st2 \<Rightarrow> Inl (Exit 2, st2))
           else Inr (p, st1))
      else
        let size1 = (scast (roundPowers (ucast sz)) :: addr)
        in case roundPowersList (ucast size1) of
             None \<Rightarrow> Inl (Undefined, st)
           | Some index \<Rightarrow>
               (case slot index of
                  None \<Rightarrow> Inl (Undefined, st)
                | Some i \<Rightarrow>
                    (case (if freelists st ! i = 0
                           then (case allocate_blocks st size1 of
                                   Inl e \<Rightarrow> Inl e
                                 | Inr (l, st1) \<Rightarrow> Inr (st1\<lparr>freelists := (freelists st1)[i := l]\<rparr>))
                           else Inr st) of
                       Inl e \<Rightarrow> Inl e
                     | Inr st2 \<Rightarrow>
                         let first = freelists st2 ! i
                         in Inr (first,
                                 st2\<lparr>freelists := (freelists st2)[i := removeFirst (mem st2) first]\<rparr>))))"

definition xxfree :: "heap \<Rightarrow> addr \<Rightarrow> (stop \<times> heap) + heap" where
  "xxfree st ptr =
     (if ptr = 0 then Inr st
      else
        let sz = xxmalloc_usable_size st ptr
        in if sz = - 1 then Inr (perror st ''pointer not allocated using custom malloc'')
           else case roundPowersList (ucast sz) of
                  None \<Rightarrow> Inl (Undefined, st)
                | Some index \<Rightarrow>
                    (case slot index of
                       None \<Rightarrow> Inl (Undefined, st)
                     | Some i \<Rightarrow>
                         (case addFirst (mem st) (freelists st ! i) ptr of (m', new) \<Rightarrow>
                            Inr (st\<lparr>mem := m', freelists := (freelists st)[i := new]\<rparr>))))"

section \<open>Vocabulary of the properties\<close>

definition size_classes :: "nat list" where
  "size_classes = [16, 32, 64, 128, 256, 512, 1024, 2048]"

text \<open>The page at \<open>pg\<close> starts with the tag and the block size \<open>sz\<close>.\<close>

definition header_at :: "memory \<Rightarrow> addr \<Rightarrow> addr \<Rightarrow> bool" where
  "header_at m pg sz \<longleftrightarrow> load32 m pg = MAGIC_NUMBER \<and> load64 m (pg + 8) = sz"

definition aligned16 :: "addr \<Rightarrow> bool" where
  "aligned16 a \<longleftrightarrow> a mod 16 = 0"

definition page_aligned :: "addr \<Rightarrow> bool" where
  "page_aligned pg \<longleftrightarrow> pg mod 0x1000 = 0"

text \<open>A page as the operating system hands them out: aligned, in the lower half of the
  address space.\<close>

definition user_page :: "addr \<Rightarrow> bool" where
  "user_page pg \<longleftrightarrow> page_aligned pg \<and> 0 \<le>s pg"

text \<open>The \<open>n\<close> addresses from \<open>a\<close> on.\<close>

definition bytes :: "addr \<Rightarrow> nat \<Rightarrow> addr set" where
  "bytes a n = (\<lambda>i. a + word_of_nat i) ` {..<n}"

text \<open>The address at offset \<open>j * c\<close> of the page \<open>pg\<close>: its \<open>j\<close>-th block of width \<open>c\<close>.\<close>

definition blk :: "addr \<Rightarrow> nat \<Rightarrow> nat \<Rightarrow> addr" where
  "blk pg c j = pg + word_of_nat (j * c)"

text \<open>The list that starts at \<open>p\<close>, followed through the links until the null pointer,
  for at most \<open>n\<close> nodes.\<close>

fun chain :: "memory \<Rightarrow> nat \<Rightarrow> addr \<Rightarrow> addr list" where
  "chain m 0 p = []"
| "chain m (Suc n) p = (if p = 0 then [] else p # chain m n (load64 m p))"

text \<open>The nodes of the list with head \<open>h\<close>.\<close>

inductive on_list :: "memory \<Rightarrow> addr \<Rightarrow> addr \<Rightarrow> bool" for m h where
  head: "h \<noteq> 0 \<Longrightarrow> on_list m h h"
| link: "on_list m h a \<Longrightarrow> load64 m a \<noteq> 0 \<Longrightarrow> on_list m h (load64 m a)"

text \<open>
  \<open>b\<close> may stand on the free list of slot \<open>i\<close>: a 16-byte aligned address past the header
  of a carved page whose header records the size class of that slot.
\<close>

definition is_block :: "heap \<Rightarrow> nat \<Rightarrow> addr \<Rightarrow> bool" where
  "is_block st i b \<longleftrightarrow>
     aligned16 b \<and>
     (\<exists>pg \<in> set (carved st). b - pg < 0x1000 \<and> b \<noteq> pg \<and>
        header_at (mem st) pg (word_of_nat (size_classes ! i)))"

text \<open>
  The invariant of the allocator: eight list heads; every carved page is a user page
  with an intact header of some size class; every node of the free list of a slot is a
  block of that slot's class; and the operating system answers \<^verbatim>\<open>mmap\<close> with
  \<open>MAP_FAILED\<close> or with a user page it has not handed out before.
\<close>

definition wf :: "heap \<Rightarrow> bool" where
  "wf st \<longleftrightarrow>
     length (freelists st) = 8 \<and>
     (\<forall>pg \<in> set (carved st).
        user_page pg \<and> (\<exists>i<8. header_at (mem st) pg (word_of_nat (size_classes ! i)))) \<and>
     (\<forall>i<8. \<forall>b. on_list (mem st) (freelists st ! i) b \<longrightarrow> is_block st i b) \<and>
     (\<forall>r \<in> set (os st). r = MAP_FAILED \<or> user_page r \<and> r \<notin> set (carved st)) \<and>
     distinct (filter (\<lambda>r. r \<noteq> MAP_FAILED) (os st))"

text \<open>The blocks of width \<open>c\<close> at \<open>p\<close> and at \<open>q\<close> share an address.\<close>

definition overlap :: "addr \<Rightarrow> addr \<Rightarrow> nat \<Rightarrow> bool" where
  "overlap p q c \<longleftrightarrow> q - p < word_of_nat c \<or> p - q < word_of_nat c"

text \<open>The number of blocks that one carved page yields for the class of width \<open>c\<close>, and
  the number of pages that \<open>k\<close> blocks take: \<open>k / blocks_per_page c\<close>, rounded up.\<close>

definition blocks_per_page :: "nat \<Rightarrow> nat" where
  "blocks_per_page c = 4096 div c - 1"

definition pages_needed :: "nat \<Rightarrow> nat \<Rightarrow> nat" where
  "pages_needed k c = (k + blocks_per_page c - 1) div blocks_per_page c"

text \<open>A run of allocations, one for each requested size, with the pointers returned.\<close>

fun xxmalloc_all :: "heap \<Rightarrow> addr list \<Rightarrow> addr list result" where
  "xxmalloc_all st [] = Inr ([], st)"
| "xxmalloc_all st (n # ns) =
     (case xxmalloc st n of
        Inl e \<Rightarrow> Inl e
      | Inr (p, st1) \<Rightarrow>
          (case xxmalloc_all st1 ns of
             Inl e \<Rightarrow> Inl e
           | Inr (ps, st2) \<Rightarrow> Inr (p # ps, st2)))"

text \<open>
  \<open>reaches S st st'\<close>: the state \<open>st'\<close> comes from \<open>st\<close> by calls of the public operations,
  none of them on a free list whose slot is in \<open>S\<close>: requests of at most 2048 bytes;
  larger requests, for which the operating system maps a region that contains no carved
  page; frees of block addresses; and frees that the allocator turns down. (The
  usable-size query does not change the state.)
\<close>

inductive reaches :: "nat set \<Rightarrow> heap \<Rightarrow> heap \<Rightarrow> bool" for S :: "nat set" and st :: heap where
  start: "reaches S st st"
| small: "reaches S st st1 \<Longrightarrow> n \<le> 2048 \<Longrightarrow> i < 8 \<Longrightarrow>
          roundPowers (ucast n) = word_of_nat (size_classes ! i) \<Longrightarrow> i \<notin> S \<Longrightarrow>
          xxmalloc st1 n = Inr (p, st2) \<Longrightarrow> reaches S st st2"
| large: "reaches S st st1 \<Longrightarrow> 2048 < n \<Longrightarrow> xxmalloc st1 n = Inr (p, st2) \<Longrightarrow>
          (\<forall>pg \<in> set (carved st1). \<forall>x. x - pg < 0x1000 \<longrightarrow> \<not> x - p < ROUND_UP n PAGE_SIZE) \<Longrightarrow>
          reaches S st st2"
| free: "reaches S st st1 \<Longrightarrow> i < 8 \<Longrightarrow> is_block st1 i p \<Longrightarrow> i \<notin> S \<Longrightarrow>
         xxfree st1 p = Inr st2 \<Longrightarrow> reaches S st st2"
| reject: "reaches S st st1 \<Longrightarrow> p = 0 \<or> load32 (mem st1) (page_start p) \<noteq> MAGIC_NUMBER \<Longrightarrow>
           xxfree st1 p = Inr st2 \<Longrightarrow> reaches S st st2"

section \<open>Page boundaries\<close>

lemma sint_nonneg_uint:
  fixes p :: addr
  assumes "0 \<le> sint p"
  shows "sint p = uint p"
proof -
  have "sint p < 2 ^ 64"
    using sint_lt [of p] by simp
  then have "take_bit 64 (sint p) = sint p"
    using assms by (simp add: take_bit_int_eq_self)
  then show ?thesis
    by (simp add: uint_sint)
qed

text \<open>
  For an address in the lower half of the address space the signed remainder of the code
  is the unsigned one, and \<open>page_start\<close> is the base of the enclosing page.
\<close>

lemma page_start_nonneg:
  assumes "0 \<le>s p"
  shows "page_start p = p - p mod 0x1000"
proof -
  have nn: "0 \<le> sint p"
    using assms by (simp add: word_sle_eq)
  then have su: "sint p = uint p"
    by (rule sint_nonneg_uint)
  have "sint p smod 0x1000 = uint p mod 0x1000"
    using nn su by (auto simp add: signed_modulo_int_def sgn_if order.order_iff_strict)
  also have "\<dots> = uint (p mod 0x1000)"
    by (simp add: uint_mod)
  finally show ?thesis
    by (simp add: page_start_def)
qed

section \<open>Loads and stores\<close>

lemma aligned16_unat: "aligned16 a \<longleftrightarrow> unat a mod 16 = 0"
  by (simp add: aligned16_def word_eq_iff_unsigned [where ?'a = nat] unat_mod_distrib)

lemma mult_room: "(n::nat) mod k = 0 \<Longrightarrow> n < k * K \<Longrightarrow> n + k \<le> k * K"
proof -
  assume a: "n mod k = 0" and b: "n < k * K"
  then obtain q where q: "n = k * q" by auto
  then have "q < K" using b by simp
  then have "k * (q + 1) \<le> k * K" by (intro mult_le_mono2) simp
  then show ?thesis using q by simp
qed

lemma aligned16_room: "aligned16 a \<Longrightarrow> unat a + 16 \<le> 2 ^ 64"
proof -
  assume "aligned16 a"
  then have "unat a mod 16 = 0" by (simp add: aligned16_unat)
  moreover have "unat a < 16 * 2 ^ 60"
    using unsigned_less [of a] by simp
  ultimately have "unat a + 16 \<le> 16 * 2 ^ 60" by (rule mult_room)
  then show ?thesis by simp
qed

lemma unat_aligned16_add: "aligned16 a \<Longrightarrow> i < 16 \<Longrightarrow> unat (a + word_of_nat i) = unat a + i"
proof -
  assume a: "aligned16 a" and i: "i < 16"
  have "unat (word_of_nat i :: addr) = i"
    using i by (simp add: unat_of_nat)
  moreover have "unat a + i < 2 ^ 64"
    using aligned16_room [OF a] i by simp
  ultimately show ?thesis
    by (simp add: unat_add_lem [THEN iffD1])
qed

lemma cells_disjoint:
  assumes "aligned16 a" "aligned16 b" "a \<noteq> b" "i < 16" "j < 16"
  shows "a + word_of_nat i \<noteq> b + word_of_nat j"
proof
  assume e: "a + word_of_nat i = b + word_of_nat j"
  have ua: "unat a mod 16 = 0" and ub: "unat b mod 16 = 0"
    using assms by (simp_all add: aligned16_unat)
  have "unat a + i = unat b + j"
    using e unat_aligned16_add [OF assms(1,4)] unat_aligned16_add [OF assms(2,5)] by simp
  then have "unat a = unat b" using ua ub assms(4,5) by presburger
  then show False using assms(3) by (simp add: word_eq_iff_unsigned [where ?'a = nat])
qed

lemma bytesI: "i < n \<Longrightarrow> a + word_of_nat i \<in> bytes a n"
  unfolding bytes_def by blast

lemma bytesE: "x \<in> bytes a n \<Longrightarrow> \<exists>i<n. x = a + word_of_nat i"
  unfolding bytes_def by blast

lemma bytes_mono: "d + k \<le> n \<Longrightarrow> bytes (a + word_of_nat d) k \<subseteq> bytes a n"
proof
  fix x assume "d + k \<le> n" "x \<in> bytes (a + word_of_nat d) k"
  then obtain i where "i < k" "x = a + word_of_nat d + word_of_nat i"
    using bytesE by blast
  then have "x = a + word_of_nat (d + i)" "d + i < n"
    using \<open>d + k \<le> n\<close> by simp_all
  then show "x \<in> bytes a n" using bytesI by blast
qed

lemma cells_disjoint_set:
  "aligned16 a \<Longrightarrow> aligned16 b \<Longrightarrow> a \<noteq> b \<Longrightarrow> bytes a 16 \<inter> bytes b 16 = {}"
  using cells_disjoint by (fastforce dest!: bytesE)

lemma store_le_frame: "x \<notin> bytes a n \<Longrightarrow> store_le m a n v x = m x"
proof -
  assume h: "x \<notin> bytes a n"
  have "\<not> unat (x - a) < n"
  proof
    assume "unat (x - a) < n"
    then have "a + word_of_nat (unat (x - a)) \<in> bytes a n"
      by (rule bytesI)
    then show False using h by simp
  qed
  then show ?thesis by (simp add: store_le_def)
qed

lemma store_le_at: "i < n \<Longrightarrow> n \<le> 16 \<Longrightarrow> store_le m a n v (a + word_of_nat i) = byte_of i v"
  by (simp add: store_le_def unat_of_nat)

lemma load_le_cong:
  "(\<forall>x \<in> bytes a n. m' x = m x) \<Longrightarrow> (load_le m' a n :: 'a::len word) = load_le m a n"
proof (induction n arbitrary: a)
  case 0
  then show ?case by simp
next
  case (Suc n)
  have a: "a \<in> bytes a (Suc n)"
    using bytesI [of 0 "Suc n" a] by simp
  have "bytes (a + 1) n \<subseteq> bytes a (Suc n)"
    using bytes_mono [of 1 n "Suc n" a] by simp
  then have "\<forall>x \<in> bytes (a + 1) n. m' x = m x"
    using Suc.prems by blast
  then have "(load_le m' (a + 1) n :: 'a word) = load_le m (a + 1) n"
    by (rule Suc.IH)
  then show ?case using Suc.prems a by simp
qed

lemma split8:
  "take_bit 8 w OR push_bit 8 (take_bit n (drop_bit 8 w)) = take_bit (8 + n) (w :: 'a::len word)"
  by (rule bit_word_eqI) (auto simp: bit_simps)

lemma load_le_bytes:
  "(\<forall>i<n. m (a + word_of_nat i) = byte_of (k + i) v) \<Longrightarrow>
   (load_le m a n :: 'a::len word) = take_bit (8 * n) (drop_bit (8 * k) (v :: 'a word))"
proof (induction n arbitrary: a k)
  case 0
  then show ?case by simp
next
  case (Suc n)
  have "\<forall>i<n. m (a + 1 + word_of_nat i) = byte_of (Suc k + i) v"
    using Suc.prems by (auto simp: add.assoc dest: spec [where x = "Suc i" for i])
  then have ih: "(load_le m (a + 1) n :: 'a word) = take_bit (8 * n) (drop_bit (8 * Suc k) v)"
    by (rule Suc.IH)
  have h: "m a = byte_of k v"
    using Suc.prems by (auto dest: spec [where x = 0])
  have u: "(ucast (byte_of k v) :: 'a word) = take_bit 8 (drop_bit (8 * k) v)"
    by (rule bit_word_eqI) (auto simp: byte_of_def bit_simps)
  have d: "drop_bit (8 * Suc k) v = drop_bit 8 (drop_bit (8 * k) v)"
    by (simp add: add.commute)
  show ?case
    by (simp only: load_le.simps ih h u d split8) (simp add: add.commute)
qed

lemma load_store_le: "n \<le> 16 \<Longrightarrow> (load_le (store_le m a n v) a n :: 'a::len word) = take_bit (8 * n) (v :: 'a word)"
  using load_le_bytes [of n "store_le m a n v" a 0 v] by (simp add: store_le_at)

lemma load64_le: "load64 m a = load_le m a 8"
  by (simp add: load64_def eval_nat_numeral)

lemma load32_le: "load32 m a = load_le m a 4"
  by (simp add: load32_def eval_nat_numeral)

lemma load64_store64: "load64 (store64 m a v) a = v"
  using load_store_le [of 8 m a v] by (simp add: load64_le store64_def take_bit_word_eq_self)

lemma load32_store32: "load32 (store32 m a v) a = v"
  using load_store_le [of 4 m a v] by (simp add: load32_le store32_def take_bit_word_eq_self)

lemma load64_eq: "(\<forall>x \<in> bytes a 8. m' x = m x) \<Longrightarrow> load64 m' a = load64 m a"
  using load_le_cong [of a 8 m' m] by (simp add: load64_le)

lemma load32_eq: "(\<forall>x \<in> bytes a 4. m' x = m x) \<Longrightarrow> load32 m' a = load32 m a"
  using load_le_cong [of a 4 m' m] by (simp add: load32_le)

lemma store64_frame: "x \<notin> bytes a 8 \<Longrightarrow> store64 m a v x = m x"
  by (simp add: store64_def store_le_frame)

lemma store32_frame: "x \<notin> bytes a 4 \<Longrightarrow> store32 m a v x = m x"
  by (simp add: store32_def store_le_frame)

section \<open>Addresses inside a page\<close>

lemma page_aligned_unat: "page_aligned a \<longleftrightarrow> unat a mod 4096 = 0"
  by (simp add: page_aligned_def word_eq_iff_unsigned [where ?'a = nat] unat_mod_distrib)

lemma page_aligned_room: "page_aligned a \<Longrightarrow> unat a + 4096 \<le> 2 ^ 64"
proof -
  assume "page_aligned a"
  then have "unat a mod 4096 = 0" by (simp add: page_aligned_unat)
  moreover have "unat a < 4096 * 2 ^ 52"
    using unsigned_less [of a] by simp
  ultimately have "unat a + 4096 \<le> 4096 * 2 ^ 52" by (rule mult_room)
  then show ?thesis by simp
qed

lemma unat_page_add: "page_aligned a \<Longrightarrow> x < 4096 \<Longrightarrow> unat (a + word_of_nat x) = unat a + x"
proof -
  assume a: "page_aligned a" and i: "x < 4096"
  have "unat (word_of_nat x :: addr) = x"
    using i by (simp add: unat_of_nat)
  moreover have "unat a + x < 2 ^ 64"
    using page_aligned_room [OF a] i by simp
  ultimately show ?thesis
    by (simp add: unat_add_lem [THEN iffD1])
qed

lemma page_offset_aligned16:
  assumes "page_aligned a" "x < 4096" "16 dvd x"
  shows "aligned16 (a + word_of_nat x)"
proof -
  have "unat a mod 4096 = 0"
    using assms(1) by (simp add: page_aligned_unat)
  then have "4096 dvd unat a"
    by (rule mod_0_imp_dvd)
  moreover have "(16::nat) dvd 4096" by simp
  ultimately have "16 dvd unat a" by (rule dvd_trans [rotated])
  then have "16 dvd unat a + x" using assms(3) by simp
  then have "(unat a + x) mod 16 = 0"
    by (rule dvd_imp_mod_0)
  then show ?thesis
    using unat_page_add [OF assms(1,2)] by (simp add: aligned16_unat)
qed

lemma page_offset_inj:
  assumes "page_aligned a" "x < 4096" "y < 4096" "a + word_of_nat x = a + word_of_nat y"
  shows "x = y"
proof -
  have "unat a + x = unat (a + word_of_nat x)"
    using unat_page_add [OF assms(1,2)] by simp
  also have "\<dots> = unat (a + word_of_nat y)"
    by (simp only: assms(4))
  also have "\<dots> = unat a + y"
    by (rule unat_page_add [OF assms(1,3)])
  finally show ?thesis by simp
qed

lemma page_offset_nonzero:
  assumes "page_aligned a" "x < 4096" "0 < x"
  shows "a + word_of_nat x \<noteq> 0"
proof
  assume "a + word_of_nat x = 0"
  then have "unat (a + word_of_nat x) = 0" by (simp only: unat_0)
  then have "unat a + x = 0" by (simp only: unat_page_add [OF assms(1,2)])
  then show False using assms(3) by simp
qed

lemma class_facts:
  "c \<in> set size_classes \<Longrightarrow>
   16 dvd c \<and> 16 \<le> c \<and> c \<le> 2048 \<and> (4096 div c) * c = 4096 \<and> 2 \<le> 4096 div c \<and>
   4096 div c \<le> 256"
  by (auto simp: size_classes_def)

lemma in_page_iff: 
  assumes "page_aligned a"
  shows "x - a < 0x1000 \<longleftrightarrow> (\<exists>d<4096. x = a + word_of_nat d)"
proof
  assume "x - a < 0x1000"
  then have "unat (x - a) < 4096" by (simp add: word_less_nat_alt)
  moreover have "x = a + word_of_nat (unat (x - a))" by simp
  ultimately show "\<exists>d<4096. x = a + word_of_nat d" by blast
next
  assume "\<exists>d<4096. x = a + word_of_nat d"
  then obtain d where "d < 4096" "x = a + word_of_nat d" by blast
  then show "x - a < 0x1000"
    by (simp add: word_less_nat_alt unat_of_nat)
qed

lemma bytes8_cell: "bytes a 8 \<subseteq> bytes a 16"
  using bytes_mono [of 0 8 16 a] by simp

lemma blk_aligned16: "page_aligned pg \<Longrightarrow> 16 dvd c \<Longrightarrow> j * c < 4096 \<Longrightarrow> aligned16 (blk pg c j)"
  unfolding blk_def by (rule page_offset_aligned16) simp_all

lemma blk_inj:
  assumes "page_aligned pg" "0 < c" "j * c < 4096" "k * c < 4096" "blk pg c j = blk pg c k"
  shows "j = k"
proof -
  have "j * c = k * c"
    using assms(5) unfolding blk_def by (rule page_offset_inj [OF assms(1,3,4)])
  then show ?thesis using assms(2) by simp
qed

lemma blk_next: "blk pg c j + word_of_nat c = blk pg c (Suc j)"
  by (simp add: blk_def)

lemma blk_offset_next: "(word_of_nat (j * c) :: addr) + word_of_nat c = word_of_nat (Suc j * c)"
  by simp

lemma blk_nonzero: "page_aligned pg \<Longrightarrow> 0 < j \<Longrightarrow> 0 < c \<Longrightarrow> j * c < 4096 \<Longrightarrow> blk pg c j \<noteq> 0"
  unfolding blk_def by (rule page_offset_nonzero) simp_all

lemma block_cells_disjoint:
  assumes "page_aligned pg" "16 dvd c" "0 < c" "j * c < 4096" "k * c < 4096" "j \<noteq> k"
  shows "bytes (blk pg c j) 8 \<inter> bytes (blk pg c k) 8 = {}"
proof -
  have "aligned16 (blk pg c j)" "aligned16 (blk pg c k)"
    using assms by (simp_all add: blk_aligned16)
  moreover have "blk pg c j \<noteq> blk pg c k"
    using blk_inj [OF assms(1,3,4,5)] assms(6) by blast
  ultimately have "bytes (blk pg c j) 16 \<inter> bytes (blk pg c k) 16 = {}"
    by (rule cells_disjoint_set)
  then show ?thesis
    using bytes8_cell [of "blk pg c j"] bytes8_cell [of "blk pg c k"]
    by blast
qed

lemma carve_loop_links:
  assumes "page_aligned pg" "16 dvd c" "0 < c" "k * c + n * c = 4096"
  shows "\<exists>m'. carve_loop m pg (word_of_nat (k * c)) (word_of_nat c) = Some (m', 0x1000) \<and>
           (\<forall>j. k \<le> j \<and> j < k + n \<longrightarrow> load64 m' (blk pg c j) = blk pg c (Suc j)) \<and>
           (\<forall>x. (\<forall>j. k \<le> j \<and> j < k + n \<longrightarrow> x \<notin> bytes (blk pg c j) 8) \<longrightarrow> m' x = m x)"
  using assms(4)
proof (induction n arbitrary: k m)
  case 0
  then have "(word_of_nat (k * c) :: addr) = 0x1000" by (simp del: of_nat_mult)
  then show ?case
    by (subst carve_loop.simps) (auto simp add: PAGE_SIZE_def simp del: of_nat_mult)
next
  case (Suc n)
  let ?m1 = "store64 m (blk pg c k) (blk pg c (Suc k))"
  have kc: "k * c < 4096"
    using Suc.prems assms(3) by simp
  then have lt: "(word_of_nat (k * c) :: addr) < PAGE_SIZE"
    by (simp add: PAGE_SIZE_def word_less_nat_alt unat_of_nat del: of_nat_mult)
  have "Suc k * c + n * c = 4096"
    using Suc.prems by simp
  from Suc.IH [OF this, of ?m1] obtain m' where
    run: "carve_loop ?m1 pg (word_of_nat (Suc k * c)) (word_of_nat c) = Some (m', 0x1000)" and
    lnk: "\<forall>j. Suc k \<le> j \<and> j < Suc k + n \<longrightarrow> load64 m' (blk pg c j) = blk pg c (Suc j)" and
    frm: "\<forall>x. (\<forall>j. Suc k \<le> j \<and> j < Suc k + n \<longrightarrow> x \<notin> bytes (blk pg c j) 8) \<longrightarrow> m' x = ?m1 x"
    by blast
  have step: "carve_loop m pg (word_of_nat (k * c)) (word_of_nat c) = Some (m', 0x1000)"
    by (subst carve_loop.simps)
      (simp only: lt if_True blk_offset_next run [unfolded blk_def])
  have here: "load64 m' (blk pg c k) = blk pg c (Suc k)"
  proof -
    have "\<forall>x \<in> bytes (blk pg c k) 8. m' x = ?m1 x"
    proof
      fix x assume x: "x \<in> bytes (blk pg c k) 8"
      have "\<forall>j. Suc k \<le> j \<and> j < Suc k + n \<longrightarrow> x \<notin> bytes (blk pg c j) 8"
      proof (intro allI impI)
        fix j assume j: "Suc k \<le> j \<and> j < Suc k + n"
        have "j * c < (Suc k + n) * c"
          by (rule mult_less_mono1) (use j assms(3) in simp_all)
        then have "j * c < 4096"
          using Suc.prems by (simp add: algebra_simps)
        from block_cells_disjoint [OF assms(1-3) this kc] j x
        show "x \<notin> bytes (blk pg c j) 8" by auto
      qed
      then show "m' x = ?m1 x" using frm by blast
    qed
    then have "load64 m' (blk pg c k) = load64 ?m1 (blk pg c k)" by (rule load64_eq)
    then show ?thesis by (simp only: load64_store64)
  qed
  have links: "\<forall>j. k \<le> j \<and> j < k + Suc n \<longrightarrow> load64 m' (blk pg c j) = blk pg c (Suc j)"
  proof (intro allI impI)
    fix j assume j: "k \<le> j \<and> j < k + Suc n"
    show "load64 m' (blk pg c j) = blk pg c (Suc j)"
    proof (cases "j = k")
      case True
      then show ?thesis using here by simp
    next
      case False
      then have "Suc k \<le> j \<and> j < Suc k + n" using j by simp
      then show ?thesis using lnk by blast
    qed
  qed
  have frame: "\<forall>x. (\<forall>j. k \<le> j \<and> j < k + Suc n \<longrightarrow> x \<notin> bytes (blk pg c j) 8) \<longrightarrow> m' x = m x"
  proof (intro allI impI)
    fix x assume x: "\<forall>j. k \<le> j \<and> j < k + Suc n \<longrightarrow> x \<notin> bytes (blk pg c j) 8"
    then have "\<forall>j. Suc k \<le> j \<and> j < Suc k + n \<longrightarrow> x \<notin> bytes (blk pg c j) 8"
      by simp
    then have "m' x = ?m1 x" using frm by blast
    moreover have "x \<notin> bytes (blk pg c k) 8" using x by simp
    ultimately show "m' x = m x" by (simp add: store64_frame)
  qed
  show ?case using step links frame by blast
qed

lemma in_page_bytes:
  assumes "d + n \<le> 4096" "x \<in> bytes (pg + word_of_nat d) n"
  shows "x - pg < 0x1000"
proof -
  obtain i where i: "i < n" "x = pg + word_of_nat d + word_of_nat i"
    using bytesE [OF assms(2)] by blast
  then have "x - pg = word_of_nat (d + i)" by simp
  moreover have "d + i < 4096" using i assms(1) by simp
  ultimately show ?thesis
    by (simp add: word_less_nat_alt unat_of_nat del: of_nat_add)
qed

lemma blk_cell_in_page: "j * c + 16 \<le> 4096 \<Longrightarrow> x \<in> bytes (blk pg c j) 16 \<Longrightarrow> x - pg < 0x1000"
  unfolding blk_def by (rule in_page_bytes)

lemma header_bytes: "bytes pg 4 \<subseteq> bytes pg 16" "bytes (pg + 8) 8 \<subseteq> bytes pg 16"
  using bytes_mono [of 0 4 16 pg] bytes_mono [of 8 8 16 pg] by simp_all

lemma header_fields_disjoint: "bytes pg 4 \<inter> bytes (pg + 8) 8 = {}"
proof -
  have "False" if "i < 4" "j < 8" "pg + word_of_nat i = pg + 8 + word_of_nat j" for i j
  proof -
    have "(word_of_nat i :: addr) = word_of_nat (8 + j)" using that(3) by simp
    then have "unat (word_of_nat i :: addr) = unat (word_of_nat (8 + j) :: addr)" by (simp only:)
    then show False using that(1,2) by (simp add: unat_of_nat del: of_nat_add)
  qed
  then show ?thesis by (fastforce dest!: bytesE)
qed

lemma header_at_cong:
  assumes "\<forall>x \<in> bytes pg 16. m' x = m x"
  shows "header_at m' pg sz = header_at m pg sz"
proof -
  have "load32 m' pg = load32 m pg"
    using assms header_bytes(1) by (intro load32_eq) blast
  moreover have "load64 m' (pg + 8) = load64 m (pg + 8)"
    using assms header_bytes(2) by (intro load64_eq) blast
  ultimately show ?thesis by (simp add: header_at_def)
qed

lemma header_at_put: "header_at (store64 (store32 m pg MAGIC_NUMBER) (pg + 8) sz) pg sz"
proof -
  have "\<forall>x \<in> bytes pg 4. store64 (store32 m pg MAGIC_NUMBER) (pg + 8) sz x = store32 m pg MAGIC_NUMBER x"
    by (intro ballI store64_frame) (use header_fields_disjoint [of pg] in blast)
  then have "load32 (store64 (store32 m pg MAGIC_NUMBER) (pg + 8) sz) pg = load32 (store32 m pg MAGIC_NUMBER) pg"
    by (rule load32_eq)
  then show ?thesis
    by (simp add: header_at_def load32_store32 load64_store64)
qed

lemma page_aligned_not_failed: "page_aligned pg \<Longrightarrow> pg \<noteq> - 1"
proof
  assume "page_aligned pg" "pg = - 1"
  then have "unat (- 1 :: addr) mod 4096 = 0"
    by (simp add: page_aligned_unat)
  then show False
    by (simp add: unsigned_minus_1_eq_mask mask_eq_exp_minus_1)
qed

lemma blk_0: "blk pg c 0 = pg"
  by (simp add: blk_def)

lemma last_block: 
  assumes "N * c = 4096" "0 < N"
  shows "pg + 0x1000 - word_of_nat c = blk pg c (N - 1)"
proof -
  have "(N - 1) * c = 4096 - c" using assms by (simp add: diff_mult_distrib)
  moreover have "c \<le> 4096" using assms by (cases N) auto
  ultimately have "(word_of_nat ((N - 1) * c) :: addr) = 0x1000 - word_of_nat c"
    by (simp add: of_nat_diff del: of_nat_mult)
  then show ?thesis by (simp add: blk_def del: of_nat_mult)
qed

section \<open>Pages do not overlap\<close>

lemma aligned_base_unique:
  fixes a b :: nat
  assumes "k dvd a" "k dvd b" "d1 < k" "d2 < k" "a + d1 = b + d2"
  shows "a = b"
proof -
  obtain qa qb where q: "a = k * qa" "b = k * qb"
    using assms(1,2) by (auto simp: dvd_def)
  have "(k * qa + d1) div k = qa" "(k * qb + d2) div k = qb"
    using assms(3,4) by simp_all
  then have "qa = qb"
    using assms(5) q by simp
  then show ?thesis using q by simp
qed

lemma in_page_offset:
  fixes x pg :: addr
  assumes "x - pg < 0x1000"
  obtains d where "d < 4096" "x = pg + word_of_nat d"
proof -
  have "unat (x - pg) < 4096"
    using assms by (simp add: word_less_nat_alt)
  moreover have "x = pg + word_of_nat (unat (x - pg))" by simp
  ultimately show ?thesis using that by blast
qed

lemma pages_disjoint:
  assumes "page_aligned pg" "page_aligned r" "x - pg < 0x1000" "x - r < 0x1000"
  shows "pg = r"
proof -
  obtain d1 where d1: "d1 < 4096" "x = pg + word_of_nat d1"
    using assms(3) by (rule in_page_offset)
  obtain d2 where d2: "d2 < 4096" "x = r + word_of_nat d2"
    using assms(4) by (rule in_page_offset)
  have "unat x = unat pg + d1" "unat x = unat r + d2"
    using unat_page_add [OF assms(1) d1(1)] unat_page_add [OF assms(2) d2(1)] d1(2) d2(2)
    by simp_all
  then have e: "unat pg + d1 = unat r + d2" by simp
  have "4096 dvd unat pg" "4096 dvd unat r"
    using assms(1,2) by (simp_all add: page_aligned_unat mod_0_imp_dvd)
  then have "unat pg = unat r"
    using d1(1) d2(1) e by (rule aligned_base_unique)
  then show ?thesis
    by (simp add: word_eq_iff_unsigned [where ?'a = nat])
qed

lemma user_page_room:
  assumes "user_page pg"
  shows "unat pg + 4096 \<le> 2 ^ 63"
proof -
  have nn: "0 \<le> sint pg"
    using assms by (simp add: user_page_def word_sle_eq)
  then have "sint pg = uint pg" by (rule sint_nonneg_uint)
  then have "uint pg < 2 ^ 63"
    using sint_lt [of pg] by simp
  then have "int (unat pg) < 2 ^ 63"
    by (simp only: uint_nat)
  then have "unat pg < 4096 * 2 ^ 51"
    by (simp del: of_nat_unat)
  moreover have "unat pg mod 4096 = 0"
    using assms by (simp add: user_page_def page_aligned_unat)
  ultimately have "unat pg + 4096 \<le> 4096 * 2 ^ 51"
    by (intro mult_room)
  then show ?thesis by simp
qed

lemma nonneg_if_small:
  fixes b :: addr
  assumes "unat b < 2 ^ 63"
  shows "0 \<le>s b"
proof -
  have "int (unat b) < 2 ^ 63"
    using assms by (simp del: of_nat_unat)
  then have "uint b < 2 ^ 63"
    by (simp only: uint_nat)
  moreover have "(- (2 ^ 63) :: int) \<le> uint b"
  proof -
    have "(- (2 ^ 63) :: int) \<le> 0" by simp
    also have "0 \<le> uint b" by simp
    finally show ?thesis .
  qed
  ultimately have "signed_take_bit 63 (uint b) = uint b"
    by (intro signed_take_bit_int_eq_self)
  then have "sint b = uint b"
    by (simp add: sint_uint)
  then show ?thesis
    by (simp add: word_sle_eq)
qed

lemma page_start_in_page:
  assumes "user_page pg" "b - pg < 0x1000"
  shows "page_start b = pg"
proof -
  have pa: "page_aligned pg"
    using assms(1) by (simp add: user_page_def)
  obtain d where d: "d < 4096" "b = pg + word_of_nat d"
    using assms(2) by (rule in_page_offset)
  have ub: "unat b = unat pg + d"
    using unat_page_add [OF pa d(1)] d(2) by simp
  then have "unat b < 2 ^ 63"
    using user_page_room [OF assms(1)] d(1) by simp
  then have "0 \<le>s b" by (rule nonneg_if_small)
  then have ps: "page_start b = b - b mod 0x1000"
    by (rule page_start_nonneg)
  have "unat pg mod 4096 = 0"
    using pa by (simp add: page_aligned_unat)
  then have "(unat pg + d) mod 4096 = d"
    using d(1) by (simp add: mod_add_left_eq [symmetric, of "unat pg"])
  then have "unat (b mod 0x1000) = d"
    by (simp add: unat_mod_distrib ub)
  then have "b mod 0x1000 = word_of_nat d"
    using d(1) by (simp add: word_eq_iff_unsigned [where ?'a = nat] unat_of_nat)
  then show ?thesis
    using ps d(2) by simp
qed

lemma cell_in_page:
  assumes "page_aligned pg" "aligned16 b" "b - pg < 0x1000" "x \<in> bytes b 16"
  shows "x - pg < 0x1000"
proof -
  obtain d where d: "d < 4096" "b = pg + word_of_nat d"
    using assms(3) by (rule in_page_offset)
  have ub: "unat b = unat pg + d"
    using unat_page_add [OF assms(1) d(1)] d(2) by simp
  have "4096 dvd unat pg"
    using assms(1) by (simp add: page_aligned_unat mod_0_imp_dvd)
  moreover have "(16::nat) dvd 4096" by simp
  ultimately have "16 dvd unat pg" by (rule dvd_trans [rotated])
  moreover have "16 dvd unat pg + d"
    using assms(2) ub by (simp add: aligned16_unat mod_0_imp_dvd)
  ultimately have "16 dvd d"
    by (simp add: dvd_add_right_iff)
  then have "d mod 16 = 0" by (rule dvd_imp_mod_0)
  moreover have "d < 16 * 256" using d(1) by simp
  ultimately have "d + 16 \<le> 16 * 256" by (rule mult_room)
  then have "d + 16 \<le> 4096" by simp
  then show ?thesis
    using assms(4) unfolding d(2) by (rule in_page_bytes)
qed

section \<open>The page carver links the blocks of a page\<close>

lemma chain_links:
  assumes "page_aligned pg" "0 < c" "N * c = 4096"
    "\<forall>j. 1 \<le> j \<and> Suc j < N \<longrightarrow> load64 m (blk pg c j) = blk pg c (Suc j)"
    "load64 m (blk pg c (N - 1)) = 0"
  shows "1 \<le> k \<Longrightarrow> k < N \<Longrightarrow> N - k < fuel \<Longrightarrow> chain m fuel (blk pg c k) = map (blk pg c) [k..<N]"
proof (induction fuel arbitrary: k)
  case 0
  then show ?case by simp
next
  case (Suc fuel)
  have "k * c < N * c"
    by (rule mult_less_mono1) (use Suc.prems assms(2) in simp_all)
  then have nz: "blk pg c k \<noteq> 0"
    using blk_nonzero [OF assms(1), of k c] Suc.prems assms(2,3) by simp
  have upt: "[k..<N] = k # [Suc k..<N]"
    using Suc.prems by (simp add: upt_rec)
  show ?case
  proof (cases "Suc k < N")
    case True
    then have "load64 m (blk pg c k) = blk pg c (Suc k)"
      using assms(4) Suc.prems by simp
    moreover have "chain m fuel (blk pg c (Suc k)) = map (blk pg c) [Suc k..<N]"
      by (rule Suc.IH) (use True Suc.prems in simp_all)
    ultimately show ?thesis
      using nz upt by simp
  next
    case False
    then have k: "k = N - 1" using Suc.prems by simp
    then have "load64 m (blk pg c k) = 0" using assms(5) by simp
    moreover have "chain m fuel 0 = []" by (cases fuel) simp_all
    moreover have "[Suc k..<N] = []" using False by simp
    ultimately show ?thesis using nz upt by simp
  qed
qed

lemma allocate_blocks_carves:
  assumes "c \<in> set size_classes" "os st = pg # rest" "page_aligned pg"
  shows "\<exists>m'. allocate_blocks st (word_of_nat c) =
           Inr (blk pg c 1, st\<lparr>os := rest, mem := m', carved := carved st @ [pg]\<rparr>) \<and>
         header_at m' pg (word_of_nat c) \<and>
         (\<forall>j. 1 \<le> j \<and> Suc j < 4096 div c \<longrightarrow> load64 m' (blk pg c j) = blk pg c (Suc j)) \<and>
         load64 m' (blk pg c (4096 div c - 1)) = 0 \<and>
         (\<forall>x. \<not> x - pg < 0x1000 \<longrightarrow> m' x = mem st x)"
proof -
  define N where "N = 4096 div c"
  have cf: "16 dvd c" "16 \<le> c" "c \<le> 2048" "N * c = 4096" "2 \<le> N"
    using class_facts [OF assms(1)] by (simp_all add: N_def)
  have cpos: "0 < c" using cf(2) by simp
  define mz where "mz = (\<lambda>x. if x - pg < PAGE_SIZE then 0 else mem st x)"
  define m2 where "m2 = store64 (store32 mz pg MAGIC_NUMBER) (pg + 8) (word_of_nat c)"
  have "1 * c + (N - 1) * c = 4096"
    using cf(3,4,5) by (simp add: diff_mult_distrib)
  moreover have "1 + (N - 1) = N"
    using cf(5) by simp
  ultimately obtain m3 where
    run: "carve_loop m2 pg (word_of_nat c) (word_of_nat c) = Some (m3, 0x1000)" and
    lnk: "\<forall>j. 1 \<le> j \<and> j < N \<longrightarrow> load64 m3 (blk pg c j) = blk pg c (Suc j)" and
    frm: "\<forall>x. (\<forall>j. 1 \<le> j \<and> j < N \<longrightarrow> x \<notin> bytes (blk pg c j) 8) \<longrightarrow> m3 x = m2 x"
    using carve_loop_links [OF assms(3) cf(1) cpos, of 1 "N - 1" m2] by auto
  define m4 where "m4 = store64 m3 (blk pg c (N - 1)) 0"
  have lastb: "pg + 0x1000 - word_of_nat c = blk pg c (N - 1)"
    by (rule last_block) (use cf in simp_all)
  have b1: "blk pg c 1 = pg + word_of_nat c"
    by (simp add: blk_def)
  have "allocate_blocks st (word_of_nat c) =
           Inr (pg + word_of_nat c,
                st\<lparr>os := rest, mem := store64 m3 (pg + 0x1000 - word_of_nat c) 0,
                   carved := carved st @ [pg]\<rparr>)"
    using assms(2) page_aligned_not_failed [OF assms(3)] run
    by (simp add: allocate_blocks_def mmap_def PAGE_SIZE_def MAP_FAILED_def Let_def
        mz_def [symmetric, unfolded PAGE_SIZE_def] m2_def [symmetric])
  then have res: "allocate_blocks st (word_of_nat c) =
           Inr (blk pg c 1, st\<lparr>os := rest, mem := m4, carved := carved st @ [pg]\<rparr>)"
    by (simp only: m4_def lastb [symmetric] b1)
  have jc: "j * c + 16 \<le> 4096" if "j < N" for j
  proof -
    have "Suc j * c \<le> N * c"
      by (rule mult_le_mono1) (use that in simp)
    then show ?thesis using cf(2,4) by simp
  qed
  have jlt: "j * c < 4096" if "j < N" for j
    using jc [OF that] by simp
  have cell: "bytes (blk pg c j) 8 \<inter> bytes pg 16 = {}" if "1 \<le> j" "j < N" for j
  proof -
    have "aligned16 (blk pg c j)" "aligned16 (blk pg c 0)"
      using assms(3) cf(1) jlt that by (simp_all add: blk_aligned16)
    moreover have "blk pg c j \<noteq> blk pg c 0"
      using blk_inj [OF assms(3) cpos jlt [OF that(2)], of 0] that(1) by auto
    ultimately have "bytes (blk pg c j) 16 \<inter> bytes (blk pg c 0) 16 = {}"
      by (rule cells_disjoint_set)
    then show ?thesis using bytes8_cell [of "blk pg c j"] by (auto simp: blk_0)
  qed
  have hd3: "\<forall>x \<in> bytes pg 16. m4 x = m2 x"
  proof
    fix x assume x: "x \<in> bytes pg 16"
    have "\<forall>j. 1 \<le> j \<and> j < N \<longrightarrow> x \<notin> bytes (blk pg c j) 8"
      using cell x by blast
    then have "m3 x = m2 x" using frm by blast
    moreover have "1 \<le> N - 1" "N - 1 < N"
      using cf(5) by simp_all
    then have "x \<notin> bytes (blk pg c (N - 1)) 8"
      using cell [of "N - 1"] x by blast
    ultimately show "m4 x = m2 x" by (simp add: m4_def store64_frame)
  qed
  have hdr: "header_at m4 pg (word_of_nat c)"
    using header_at_cong [OF hd3] by (simp add: m2_def header_at_put)
  have links: "\<forall>j. 1 \<le> j \<and> Suc j < N \<longrightarrow> load64 m4 (blk pg c j) = blk pg c (Suc j)"
  proof (intro allI impI)
    fix j assume j: "1 \<le> j \<and> Suc j < N"
    have "bytes (blk pg c j) 8 \<inter> bytes (blk pg c (N - 1)) 8 = {}"
      by (rule block_cells_disjoint [OF assms(3) cf(1) cpos]) (use j jlt in auto)
    then have "\<forall>x \<in> bytes (blk pg c j) 8. m4 x = m3 x"
      unfolding m4_def by (intro ballI store64_frame) blast
    then have "load64 m4 (blk pg c j) = load64 m3 (blk pg c j)"
      by (rule load64_eq)
    then show "load64 m4 (blk pg c j) = blk pg c (Suc j)"
      using lnk j by simp
  qed
  have lastl: "load64 m4 (blk pg c (N - 1)) = 0"
    by (simp add: m4_def load64_store64)
  have outside: "\<forall>x. \<not> x - pg < 0x1000 \<longrightarrow> m4 x = mem st x"
  proof (intro allI impI)
    fix x assume x: "\<not> x - pg < 0x1000"
    have nb: "x \<notin> bytes (blk pg c j) 16" if "j < N" for j
      using blk_cell_in_page [OF jc [OF that]] x by blast
    then have nb8: "x \<notin> bytes (blk pg c j) 8" if "j < N" for j
      using bytes8_cell that by blast
    have "m4 x = m3 x"
      using nb8 [of "N - 1"] cf(5) by (simp add: m4_def store64_frame)
    also have "\<dots> = m2 x"
      using frm nb8 by blast
    also have "\<dots> = mz x"
    proof -
      have "x \<notin> bytes pg 16"
        using nb [of 0] cf(5) by (simp add: blk_0)
      then have "x \<notin> bytes pg 4" "x \<notin> bytes (pg + 8) 8"
        using header_bytes [of pg] by blast+
      then show ?thesis
        by (simp add: m2_def store64_frame store32_frame)
    qed
    also have "\<dots> = mem st x"
      using x by (simp add: mz_def PAGE_SIZE_def)
    finally show "m4 x = mem st x" .
  qed
  show ?thesis
    using res hdr links lastl outside unfolding N_def by blast
qed

lemma unat_blk: "page_aligned pg \<Longrightarrow> j * c < 4096 \<Longrightarrow> unat (blk pg c j) = unat pg + j * c"
  unfolding blk_def by (rule unat_page_add)

lemma blk_increasing:
  assumes "page_aligned pg" "0 < c" "N * c = 4096"
  shows "sorted_wrt (<) (map (blk pg c) [1..<N])"
proof -
  have "blk pg c i < blk pg c j" if "i < j" "j < N" for i j
  proof -
    have a: "j * c < N * c"
      by (rule mult_less_mono1) (use that assms(2) in simp_all)
    have b: "i * c < j * c"
      by (rule mult_less_mono1) (use that assms(2) in simp_all)
    have "j * c < 4096" "i * c < 4096"
      using a b assms(3) by linarith+
    then have "unat (blk pg c i) = unat pg + i * c" "unat (blk pg c j) = unat pg + j * c"
      using assms(1) by (simp_all only: unat_blk)
    then show ?thesis
      unfolding word_less_nat_alt using b by linarith
  qed
  then show ?thesis
    by (simp add: sorted_wrt_iff_nth_less)
qed

section \<open>Size classes and their slots\<close>

lemma ctz_aux_step:
  "0 < n \<Longrightarrow> ctz_aux n w = (if bit w 0 then 0 else Suc (ctz_aux (n - 1) (drop_bit 1 w)))"
  by (cases n) simp_all

lemma ctzl_classes:
  "ctzl 16 = 4" "ctzl 32 = 5" "ctzl 64 = 6" "ctzl 128 = 7" "ctzl 256 = 8" "ctzl 512 = 9"
  "ctzl 1024 = 10" "ctzl 2048 = 11"
  by (simp_all add: ctzl_def ctz_aux_step drop_bit_eq_div)

lemma lt8_cases:
  "k < (8::nat) \<Longrightarrow> k = 0 \<or> k = 1 \<or> k = 2 \<or> k = 3 \<or> k = 4 \<or> k = 5 \<or> k = 6 \<or> k = 7"
  by linarith

lemma class_slot:
  "i < 8 \<Longrightarrow>
   roundPowersList (ucast (word_of_nat (size_classes ! i) :: addr)) = Some (word_of_nat i) \<and>
   slot (word_of_nat i) = Some i \<and>
   (scast (word_of_nat (size_classes ! i) :: cint) :: addr) = word_of_nat (size_classes ! i) \<and>
   (word_of_nat (size_classes ! i) :: addr) \<noteq> - 1"
proof -
  assume "i < 8"
  then have "i = 0 \<or> i = 1 \<or> i = 2 \<or> i = 3 \<or> i = 4 \<or> i = 5 \<or> i = 6 \<or> i = 7"
    by (rule lt8_cases)
  then show ?thesis
    by (elim disjE)
      (simp_all add: size_classes_def roundPowersList_def ctzl_classes slot_def word_sle_eq
        word_sless_alt)
qed

lemma sint_ucast_small:
  fixes n :: addr
  assumes "n \<le> 2048"
  shows "sint (ucast n :: cint) = uint n"
proof -
  have u: "uint n \<le> 2048"
    using assms by (simp add: word_le_def)
  have "(ucast n :: cint) = word_of_int (uint n)"
    by simp
  then have "sint (ucast n :: cint) = signed_take_bit 31 (uint n)"
    by (simp only: signed_of_int) simp
  also have "\<dots> = uint n"
  proof (rule signed_take_bit_int_eq_self)
    have "(- (2 ^ 31) :: int) \<le> 0" by simp
    also have "0 \<le> uint n" by simp
    finally show "- (2 ^ 31) \<le> uint n" .
    show "uint n < 2 ^ 31" using u by simp
  qed
  finally show ?thesis .
qed

lemma roundPowers_small:
  fixes n :: addr
  assumes "n \<le> 2048"
  shows "\<exists>c \<in> set size_classes. roundPowers (ucast n) = word_of_nat c \<and> unat n \<le> c \<and>
           (\<forall>c' \<in> set size_classes. unat n \<le> c' \<longrightarrow> c \<le> c')"
proof -
  have u: "unat n \<le> 2048"
    using assms by (simp add: word_le_nat_alt)
  have s: "sint (ucast n :: cint) = int (unat n)"
    by (simp only: sint_ucast_small [OF assms] uint_nat)
  have r: "roundPowers (ucast n) =
     (if unat n \<le> 16 then 16 else if unat n \<le> 32 then 32 else if unat n \<le> 64 then 64
      else if unat n \<le> 128 then 128 else if unat n \<le> 256 then 256
      else if unat n \<le> 512 then 512 else if unat n \<le> 1024 then 1024 else 2048)"
    unfolding roundPowers_def word_sle_eq s using u by (simp del: of_nat_unat)
  consider "unat n \<le> 16" | "16 < unat n" "unat n \<le> 32" | "32 < unat n" "unat n \<le> 64"
    | "64 < unat n" "unat n \<le> 128" | "128 < unat n" "unat n \<le> 256"
    | "256 < unat n" "unat n \<le> 512" | "512 < unat n" "unat n \<le> 1024"
    | "1024 < unat n" "unat n \<le> 2048"
    using u by linarith
  then show ?thesis
    by cases (simp_all add: r size_classes_def)
qed

lemma class_index: "c \<in> set size_classes \<Longrightarrow> \<exists>i<8. c = size_classes ! i"
proof -
  assume "c \<in> set size_classes"
  then obtain i where "i < length size_classes" "size_classes ! i = c"
    by (auto simp: in_set_conv_nth)
  moreover have "length size_classes = 8"
    by (simp add: size_classes_def)
  ultimately show ?thesis by auto
qed

lemma class_nth: "i < 8 \<Longrightarrow> size_classes ! i \<in> set size_classes"
  by (rule nth_mem) (simp add: size_classes_def)

lemma class_nth_inj: "i < 8 \<Longrightarrow> j < 8 \<Longrightarrow> size_classes ! i = size_classes ! j \<Longrightarrow> i = j"
proof -
  have "distinct size_classes" "length size_classes = 8"
    by (simp_all add: size_classes_def)
  then show "i < 8 \<Longrightarrow> j < 8 \<Longrightarrow> size_classes ! i = size_classes ! j \<Longrightarrow> i = j"
    by (simp add: nth_eq_iff_index_eq)
qed

section \<open>The paths through the public operations\<close>

lemma xxmalloc_small:
  assumes "n \<le> 2048" "i < 8" "roundPowers (ucast n) = word_of_nat (size_classes ! i)"
  shows "xxmalloc st n =
     (case (if freelists st ! i = 0
            then (case allocate_blocks st (word_of_nat (size_classes ! i)) of
                    Inl e \<Rightarrow> Inl e
                  | Inr (l, st1) \<Rightarrow> Inr (st1\<lparr>freelists := (freelists st1)[i := l]\<rparr>))
            else Inr st) of
        Inl e \<Rightarrow> Inl e
      | Inr st2 \<Rightarrow>
          Inr (freelists st2 ! i,
               st2\<lparr>freelists := (freelists st2)[i := load64 (mem st2) (freelists st2 ! i)]\<rparr>))"
proof -
  have "\<not> 2048 < n" using assms(1) by simp
  then show ?thesis
    using class_slot [OF assms(2)]
    by (simp add: xxmalloc_def assms(3) Let_def removeFirst_def split: sum.split prod.split)
qed

lemma xxmalloc_pop:
  assumes "n \<le> 2048" "i < 8" "roundPowers (ucast n) = word_of_nat (size_classes ! i)"
    "freelists st ! i \<noteq> 0"
  shows "xxmalloc st n =
     Inr (freelists st ! i, st\<lparr>freelists := (freelists st)[i := load64 (mem st) (freelists st ! i)]\<rparr>)"
  using assms(4) by (simp add: xxmalloc_small [OF assms(1-3)])

lemma xxfree_push:
  assumes "ptr \<noteq> 0" "i < 8" "header_at (mem st) (page_start ptr) (word_of_nat (size_classes ! i))"
  shows "xxfree st ptr =
     Inr (st\<lparr>mem := store64 (mem st) ptr (freelists st ! i), freelists := (freelists st)[i := ptr]\<rparr>)"
  using assms(1,3) class_slot [OF assms(2)]
  by (simp add: xxfree_def xxmalloc_usable_size_def header_at_def Let_def addFirst_def)

lemma push_then_pop:
  assumes "ptr \<noteq> 0" "i < 8" "header_at (mem st) (page_start ptr) (word_of_nat (size_classes ! i))"
    "length (freelists st) = 8" "n \<le> 2048" "roundPowers (ucast n) = word_of_nat (size_classes ! i)"
  shows "\<exists>st1 st2. xxfree st ptr = Inr st1 \<and>
           mem st1 = store64 (mem st) ptr (freelists st ! i) \<and>
           freelists st1 = (freelists st)[i := ptr] \<and>
           xxmalloc st1 n = Inr (ptr, st2) \<and> freelists st2 = freelists st"
proof -
  let ?st1 = "st\<lparr>mem := store64 (mem st) ptr (freelists st ! i), freelists := (freelists st)[i := ptr]\<rparr>"
  have f: "xxfree st ptr = Inr ?st1"
    by (rule xxfree_push [OF assms(1-3)])
  have h: "freelists ?st1 ! i = ptr"
    using assms(2,4) by simp
  then have nz: "freelists ?st1 ! i \<noteq> 0"
    using assms(1) by simp
  have "xxmalloc ?st1 n =
     Inr (ptr, ?st1\<lparr>freelists := (freelists ?st1)[i := load64 (mem ?st1) ptr]\<rparr>)"
    using xxmalloc_pop [OF assms(5,2,6) nz] by (simp only: h)
  moreover have "(freelists ?st1)[i := load64 (mem ?st1) ptr] = freelists st"
    by (simp add: load64_store64)
  ultimately show ?thesis
    using f by simp
qed

section \<open>The invariant\<close>

lemma on_list_null: "\<not> on_list m 0 b"
proof
  assume "on_list m 0 b"
  then show False by induction simp_all
qed

lemma on_list_nonnull: "on_list m h b \<Longrightarrow> b \<noteq> 0"
  by (induction rule: on_list.induct) simp_all

lemma on_list_tail:
  assumes "on_list m (load64 m h) b" "h \<noteq> 0"
  shows "on_list m h b"
  using assms(1)
proof induction
  case head
  then show ?case using assms(2) by (auto intro: on_list.intros)
next
  case (link a)
  then show ?case by (auto intro: on_list.intros)
qed

lemma on_list_frame:
  assumes "on_list m' h b" "\<And>a. on_list m h a \<Longrightarrow> load64 m' a = load64 m a"
  shows "on_list m h b"
  using assms(1)
proof induction
  case head
  then show ?case by (rule on_list.head)
next
  case (link a)
  then have "load64 m a \<noteq> 0" "load64 m' a = load64 m a"
    using assms(2) by simp_all
  then show ?case
    using link.IH by (auto intro: on_list.link)
qed

lemma on_list_push:
  assumes "on_list (store64 m p h) p b"
    "\<And>a. on_list m h a \<Longrightarrow> a \<noteq> p \<Longrightarrow> load64 (store64 m p h) a = load64 m a"
  shows "b = p \<or> on_list m h b"
  using assms(1)
proof induction
  case head
  then show ?case by simp
next
  case (link a)
  show ?case
  proof (cases "a = p")
    case True
    then have "load64 (store64 m p h) a = h"
      by (simp add: load64_store64)
    moreover from this link.hyps(2) have "h \<noteq> 0" by simp
    ultimately show ?thesis by (auto intro: on_list.head)
  next
    case False
    then have a: "on_list m h a" using link.IH by simp
    then have "load64 (store64 m p h) a = load64 m a"
      using assms(2) False by simp
    then show ?thesis
      using a link.hyps(2) by (auto intro: on_list.link)
  qed
qed

lemma on_list_blocks:
  assumes "\<forall>j. 1 \<le> j \<and> Suc j < N \<longrightarrow> load64 m (blk pg c j) = blk pg c (Suc j)"
    "load64 m (blk pg c (N - 1)) = 0"
    "on_list m h b" "\<exists>k. 1 \<le> k \<and> k < N \<and> h = blk pg c k"
  shows "\<exists>k. 1 \<le> k \<and> k < N \<and> b = blk pg c k"
  using assms(3)
proof induction
  case head
  then show ?case using assms(4) by simp
next
  case (link a)
  then obtain k where k: "1 \<le> k" "k < N" "a = blk pg c k" by blast
  show ?case
  proof (cases "Suc k < N")
    case True
    then have "load64 m a = blk pg c (Suc k)"
      using assms(1) k by simp
    then show ?thesis using True by auto
  next
    case False
    then have "k = N - 1" using k by simp
    then have "load64 m a = 0" using assms(2) k by simp
    then show ?thesis using link.hyps(2) by simp
  qed
qed

lemma page_aligned_aligned16: "page_aligned pg \<Longrightarrow> aligned16 pg"
  using page_offset_aligned16 [of pg 0] by simp

lemma word_of_nat_class_inj:
  assumes "i < 8" "j < 8"
    "(word_of_nat (size_classes ! i) :: addr) = word_of_nat (size_classes ! j)"
  shows "i = j"
proof -
  have "size_classes ! i \<le> 2048" "size_classes ! j \<le> 2048"
    using class_facts [OF class_nth [OF assms(1)]] class_facts [OF class_nth [OF assms(2)]]
    by simp_all
  then have u: "unat (word_of_nat (size_classes ! i) :: addr) = size_classes ! i"
    "unat (word_of_nat (size_classes ! j) :: addr) = size_classes ! j"
    by (simp_all add: unat_of_nat)
  have "size_classes ! i = unat (word_of_nat (size_classes ! i) :: addr)"
    by (simp only: u)
  also have "\<dots> = unat (word_of_nat (size_classes ! j) :: addr)"
    by (simp only: assms(3))
  also have "\<dots> = size_classes ! j"
    by (simp only: u)
  finally show ?thesis by (rule class_nth_inj [OF assms(1,2)])
qed

lemma header_at_unique: "header_at m pg s \<Longrightarrow> header_at m pg s' \<Longrightarrow> s = s'"
  by (simp add: header_at_def)

lemma is_block_props:
  assumes "is_block st i b" "\<forall>pg \<in> set (carved st). user_page pg"
  shows "b \<noteq> 0" "aligned16 b" "page_start b \<in> set (carved st)"
    "header_at (mem st) (page_start b) (word_of_nat (size_classes ! i))"
    "b - page_start b < 0x1000" "b \<noteq> page_start b"
proof -
  obtain pg where pg: "pg \<in> set (carved st)" "b - pg < 0x1000" "b \<noteq> pg"
    "header_at (mem st) pg (word_of_nat (size_classes ! i))" and al: "aligned16 b"
    using assms(1) by (auto simp: is_block_def)
  have up: "user_page pg" using assms(2) pg(1) by blast
  have ps: "page_start b = pg"
    by (rule page_start_in_page [OF up pg(2)])
  show "aligned16 b" by (rule al)
  show "page_start b \<in> set (carved st)" "b - page_start b < 0x1000" "b \<noteq> page_start b"
    "header_at (mem st) (page_start b) (word_of_nat (size_classes ! i))"
    using pg ps by simp_all
  obtain d where d: "d < 4096" "b = pg + word_of_nat d"
    using pg(2) by (rule in_page_offset)
  have "0 < d" using d(2) pg(3) by (cases d) simp_all
  then show "b \<noteq> 0"
    unfolding d(2) using up d(1) by (intro page_offset_nonzero) (simp_all add: user_page_def)
qed

lemma wf_init:
  assumes "\<forall>r \<in> set answers. r = MAP_FAILED \<or> user_page r"
    "distinct (filter (\<lambda>r. r \<noteq> MAP_FAILED) answers)"
  shows "wf (init answers)"
  using assms by (auto simp: wf_def init_def on_list_null)

lemma block_load_frame:
  assumes "aligned16 a" "aligned16 p" "a \<noteq> p"
  shows "load64 (store64 m p v) a = load64 m a"
proof (rule load64_eq, rule ballI)
  fix x assume "x \<in> bytes a 8"
  then have "x \<in> bytes a 16" using bytes8_cell by blast
  then have "x \<notin> bytes p 16"
    using cells_disjoint_set [OF assms] by blast
  then have "x \<notin> bytes p 8" using bytes8_cell by blast
  then show "store64 m p v x = m x" by (rule store64_frame)
qed

lemma header_store_frame:
  assumes "aligned16 pg" "aligned16 p" "pg \<noteq> p"
  shows "header_at (store64 m p v) pg s = header_at m pg s"
proof (rule header_at_cong, rule ballI)
  fix x assume "x \<in> bytes pg 16"
  then have "x \<notin> bytes p 16"
    using cells_disjoint_set [OF assms] by blast
  then have "x \<notin> bytes p 8" using bytes8_cell by blast
  then show "store64 m p v x = m x" by (rule store64_frame)
qed

lemma xxmalloc_pop_wf:
  assumes "wf st" "i < 8" "freelists st ! i \<noteq> 0"
  defines "st' \<equiv> st\<lparr>freelists := (freelists st)[i := load64 (mem st) (freelists st ! i)]\<rparr>"
  shows "is_block st' i (freelists st ! i)" "wf st'"
proof -
  let ?h = "freelists st ! i"
  have len: "length (freelists st) = 8" using assms(1) by (simp add: wf_def)
  have ib: "is_block st' j b = is_block st j b" for j b
    by (simp add: is_block_def st'_def)
  have "on_list (mem st) ?h ?h" using assms(3) by (rule on_list.head)
  then have "is_block st i ?h" using assms(1,2) by (simp add: wf_def)
  then show "is_block st' i ?h" by (simp add: ib)
  have lists: "is_block st' j b" if "j < 8" "on_list (mem st') (freelists st' ! j) b" for j b
  proof (cases "j = i")
    case True
    then have "on_list (mem st) (load64 (mem st) ?h) b"
      using that len assms(2) by (simp add: st'_def)
    then have "on_list (mem st) ?h b"
      using assms(3) by (rule on_list_tail)
    then show ?thesis using assms(1) that(1) True by (simp add: wf_def ib)
  next
    case False
    then have "on_list (mem st) (freelists st ! j) b"
      using that by (simp add: st'_def)
    then show ?thesis using assms(1) that(1) by (simp add: wf_def ib)
  qed
  show "wf st'"
    using assms(1) lists unfolding wf_def by (simp add: st'_def [symmetric]) (simp add: st'_def)
qed

lemma blk_in_page: "j * c < 4096 \<Longrightarrow> blk pg c j - pg < 0x1000"
  by (simp add: blk_def word_less_nat_alt unat_of_nat del: of_nat_mult)

lemma blk_not_base:
  assumes "page_aligned pg" "0 < j" "0 < c" "j * c < 4096"
  shows "blk pg c j \<noteq> pg"
proof
  assume "blk pg c j = pg"
  then have "blk pg c j = blk pg c 0" by (simp add: blk_0)
  then have "j = 0"
    using assms by (intro blk_inj [OF assms(1,3,4)]) simp_all
  then show False using assms(2) by simp
qed

lemma xxmalloc_carve:
  assumes "wf st" "n \<le> 2048" "i < 8" "roundPowers (ucast n) = word_of_nat (size_classes ! i)"
    "freelists st ! i = 0" "os st = r # rest" "r \<noteq> MAP_FAILED"
  shows "\<exists>st'. xxmalloc st n = Inr (blk r (size_classes ! i) 1, st') \<and>
           is_block st' i (blk r (size_classes ! i) 1) \<and> wf st' \<and>
           carved st' = carved st @ [r] \<and> os st' = rest \<and>
           (\<forall>k. k \<noteq> i \<longrightarrow> freelists st' ! k = freelists st ! k) \<and>
           (\<forall>j b. is_block st j b \<longrightarrow> is_block st' j b)"
proof -
  define c where "c = size_classes ! i"
  define N where "N = 4096 div c"
  have cin: "c \<in> set size_classes"
    unfolding c_def by (rule class_nth [OF assms(3)])
  have cf: "16 dvd c" "16 \<le> c" "c \<le> 2048" "N * c = 4096" "2 \<le> N"
    using class_facts [OF cin] by (simp_all add: N_def)
  have cpos: "0 < c" using cf(2) by simp
  have len: "length (freelists st) = 8" using assms(1) by (simp add: wf_def)
  have up_old: "\<forall>pg \<in> set (carved st). user_page pg"
    using assms(1) by (simp add: wf_def)
  have "r \<in> set (os st)" using assms(6) by simp
  then have ur: "user_page r" and rnew: "r \<notin> set (carved st)"
    using assms(1,7) by (auto simp: wf_def)
  have pr: "page_aligned r" using ur by (simp add: user_page_def)
  obtain m' where
    res: "allocate_blocks st (word_of_nat c) =
           Inr (blk r c 1, st\<lparr>os := rest, mem := m', carved := carved st @ [r]\<rparr>)" and
    hdr: "header_at m' r (word_of_nat c)" and
    lnk: "\<forall>j. 1 \<le> j \<and> Suc j < N \<longrightarrow> load64 m' (blk r c j) = blk r c (Suc j)" and
    lst: "load64 m' (blk r c (N - 1)) = 0" and
    out: "\<forall>x. \<not> x - r < 0x1000 \<longrightarrow> m' x = mem st x"
    using allocate_blocks_carves [OF cin assms(6) pr] unfolding N_def by blast
  define st' where "st' = st\<lparr>os := rest, mem := m', carved := carved st @ [r],
     freelists := (freelists st)[i := load64 m' (blk r c 1)]\<rparr>"
  have run: "xxmalloc st n = Inr (blk r c 1, st')"
    using len assms(3,5) res
    by (simp add: xxmalloc_small [OF assms(2-4)] c_def [symmetric] st'_def)
  have jlt: "j * c < 4096" if "j < N" for j
  proof -
    have "j * c < N * c" by (rule mult_less_mono1) (use that cpos in simp_all)
    then show ?thesis using cf(4) by simp
  qed
  have old_cell: "\<forall>x \<in> bytes b 16. m' x = mem st x"
    if "pg \<in> set (carved st)" "aligned16 b" "b - pg < 0x1000" for pg b
  proof
    fix x assume "x \<in> bytes b 16"
    have pp: "page_aligned pg" using up_old that(1) by (simp add: user_page_def)
    then have "x - pg < 0x1000"
      using that(2,3) \<open>x \<in> bytes b 16\<close> by (rule cell_in_page)
    then have "\<not> x - r < 0x1000"
      using pages_disjoint [OF pp pr] that(1) rnew by blast
    then show "m' x = mem st x" using out by blast
  qed
  have old_header: "header_at m' pg s = header_at (mem st) pg s" if "pg \<in> set (carved st)" for pg s
  proof -
    have "page_aligned pg" using up_old that by (simp add: user_page_def)
    then have "aligned16 pg" by (rule page_aligned_aligned16)
    then have "\<forall>x \<in> bytes pg 16. m' x = mem st x"
      using old_cell [OF that] by simp
    then show ?thesis by (rule header_at_cong)
  qed
  have old_block: "is_block st' j b" if "is_block st j b" for j b
    using that old_header by (auto simp: is_block_def st'_def)
  have old_load: "load64 m' b = load64 (mem st) b" if ib: "is_block st j b" for j b
  proof -
    obtain pg where "pg \<in> set (carved st)" "aligned16 b" "b - pg < 0x1000"
      using ib by (auto simp: is_block_def)
    then have "\<forall>x \<in> bytes b 16. m' x = mem st x" by (rule old_cell)
    then have "\<forall>x \<in> bytes b 8. m' x = mem st x" using bytes8_cell by blast
    then show ?thesis by (rule load64_eq)
  qed
  have new_block: "is_block st' i (blk r c k)" if "1 \<le> k" "k < N" for k
  proof -
    have "aligned16 (blk r c k)"
      using pr cf(1) jlt [OF that(2)] by (rule blk_aligned16)
    moreover have "blk r c k - r < 0x1000"
      using jlt [OF that(2)] by (rule blk_in_page)
    moreover have "blk r c k \<noteq> r"
      by (rule blk_not_base [OF pr _ cpos jlt [OF that(2)]]) (use that in simp)
    ultimately show ?thesis
      using hdr by (auto simp: is_block_def st'_def c_def)
  qed
  have first: "is_block st' i (blk r c 1)"
    by (rule new_block) (use cf(5) in simp_all)
  have lists: "is_block st' j b" if "j < 8" "on_list (mem st') (freelists st' ! j) b" for j b
  proof (cases "j = i")
    case True
    then have ol: "on_list m' (load64 m' (blk r c 1)) b"
      using that len assms(3) by (simp add: st'_def)
    have "\<exists>k. 1 \<le> k \<and> k < N \<and> load64 m' (blk r c 1) = blk r c k"
    proof (cases "Suc 1 < N")
      case True
      then have "load64 m' (blk r c 1) = blk r c (Suc 1)" using lnk by simp
      then show ?thesis using True by auto
    next
      case False
      then have "N - 1 = 1" using cf(5) by simp
      then have "load64 m' (blk r c 1) = 0" using lst by simp
      then show ?thesis using ol on_list_null by simp
    qed
    from on_list_blocks [OF lnk lst ol this] obtain k where "1 \<le> k" "k < N" "b = blk r c k"
      by blast
    then show ?thesis using new_block True by simp
  next
    case False
    then have "on_list m' (freelists st ! j) b"
      using that by (simp add: st'_def)
    then have "on_list (mem st) (freelists st ! j) b"
    proof (rule on_list_frame)
      fix a assume "on_list (mem st) (freelists st ! j) a"
      then have "is_block st j a" using assms(1) that(1) by (simp add: wf_def)
      then show "load64 m' a = load64 (mem st) a" by (rule old_load)
    qed
    then have "is_block st j b" using assms(1) that(1) by (simp add: wf_def)
    then show ?thesis by (rule old_block)
  qed
  have pages: "user_page pg \<and> (\<exists>j<8. header_at (mem st') pg (word_of_nat (size_classes ! j)))"
    if "pg \<in> set (carved st')" for pg
  proof (cases "pg = r")
    case True
    then show ?thesis using ur hdr assms(3) by (auto simp: st'_def c_def)
  next
    case False
    then have old: "pg \<in> set (carved st)" using that by (simp add: st'_def)
    then have "user_page pg \<and> (\<exists>j<8. header_at (mem st) pg (word_of_nat (size_classes ! j)))"
      using assms(1) by (simp add: wf_def)
    then show ?thesis using old_header [OF old] by (simp add: st'_def)
  qed
  have d: "distinct (filter (\<lambda>x. x \<noteq> MAP_FAILED) (r # rest))"
    using assms(1,6) by (simp add: wf_def)
  then have os2: "distinct (filter (\<lambda>x. x \<noteq> MAP_FAILED) rest)"
    using assms(7) by simp
  have os1: "x = MAP_FAILED \<or> user_page x \<and> x \<notin> set (carved st')" if "x \<in> set rest" for x
  proof (cases "x = MAP_FAILED")
    case True
    then show ?thesis by simp
  next
    case False
    then have "x \<noteq> r" using d that assms(7) by auto
    moreover have "x \<in> set (os st)" using that assms(6) by simp
    then have "user_page x \<and> x \<notin> set (carved st)"
      using assms(1) False by (auto simp: wf_def)
    ultimately show ?thesis by (simp add: st'_def)
  qed
  have "wf st'"
    unfolding wf_def
  proof (intro conjI)
    show "length (freelists st') = 8" using len by (simp add: st'_def)
    show "\<forall>pg\<in>set (carved st').
       user_page pg \<and> (\<exists>i<8. header_at (mem st') pg (word_of_nat (size_classes ! i)))"
      using pages by blast
    show "\<forall>i<8. \<forall>b. on_list (mem st') (freelists st' ! i) b \<longrightarrow> is_block st' i b"
      using lists by blast
    show "\<forall>r\<in>set (os st'). r = MAP_FAILED \<or> user_page r \<and> r \<notin> set (carved st')"
      using os1 by (simp add: st'_def)
    show "distinct (filter (\<lambda>r. r \<noteq> MAP_FAILED) (os st'))"
      using os2 by (simp add: st'_def)
  qed
  moreover have "\<forall>k. k \<noteq> i \<longrightarrow> freelists st' ! k = freelists st ! k"
    by (simp add: st'_def)
  moreover have "carved st' = carved st @ [r]" "os st' = rest"
    by (simp_all add: st'_def)
  ultimately show ?thesis
    using run first old_block unfolding c_def [symmetric] by blast
qed

lemma xxfree_block:
  assumes "wf st" "i < 8" "is_block st i p"
  defines "st' \<equiv> st\<lparr>mem := store64 (mem st) p (freelists st ! i),
                      freelists := (freelists st)[i := p]\<rparr>"
  shows "xxfree st p = Inr st'" "wf st'" "\<And>j b. is_block st' j b = is_block st j b"
proof -
  let ?m' = "store64 (mem st) p (freelists st ! i)"
  have len: "length (freelists st) = 8" using assms(1) by (simp add: wf_def)
  have up: "\<forall>pg \<in> set (carved st). user_page pg"
    using assms(1) by (simp add: wf_def)
  note pp = is_block_props [OF assms(3) up]
  show "xxfree st p = Inr st'"
    unfolding st'_def by (rule xxfree_push [OF pp(1) assms(2) pp(4)])
  have not_base: "pg \<noteq> p" if "pg \<in> set (carved st)" for pg
  proof
    assume e: "pg = p"
    have "page_aligned pg" "page_aligned (page_start p)"
      using up that pp(3) by (simp_all add: user_page_def)
    moreover have "p - pg < 0x1000" using e by simp
    ultimately have "page_start p = pg"
      using pp(5) by (intro pages_disjoint [of "page_start p" pg p])
    then show False using pp(6) e by simp
  qed
  have hdr: "header_at ?m' pg s = header_at (mem st) pg s" if "pg \<in> set (carved st)" for pg s
  proof (rule header_store_frame)
    show "aligned16 pg"
      using up that by (intro page_aligned_aligned16) (simp add: user_page_def)
    show "aligned16 p" by (rule pp(2))
    show "pg \<noteq> p" by (rule not_base [OF that])
  qed
  show ib: "is_block st' j b = is_block st j b" for j b
    using hdr by (auto simp: is_block_def st'_def)
  have other: "load64 ?m' a = load64 (mem st) a" if "is_block st j a" "a \<noteq> p" for j a
    using is_block_props(2) [OF that(1) up] pp(2) that(2) by (rule block_load_frame)
  have lists: "is_block st' j b" if "j < 8" "on_list (mem st') (freelists st' ! j) b" for j b
  proof (cases "j = i")
    case True
    then have ol: "on_list ?m' p b"
      using that len assms(2) by (simp add: st'_def)
    have "b = p \<or> on_list (mem st) (freelists st ! i) b"
      using ol
    proof (rule on_list_push)
      fix a assume "on_list (mem st) (freelists st ! i) a" "a \<noteq> p"
      moreover from this have "is_block st i a" using assms(1,2) by (simp add: wf_def)
      ultimately show "load64 ?m' a = load64 (mem st) a" using other by blast
    qed
    then have "is_block st i b"
      using assms(1,2,3) by (auto simp: wf_def)
    then show ?thesis using True by (simp add: ib)
  next
    case False
    then have "on_list ?m' (freelists st ! j) b"
      using that by (simp add: st'_def)
    then have "on_list (mem st) (freelists st ! j) b"
    proof (rule on_list_frame)
      fix a assume "on_list (mem st) (freelists st ! j) a"
      then have a: "is_block st j a" using assms(1) that(1) by (simp add: wf_def)
      have "a \<noteq> p"
      proof
        assume "a = p"
        then have "header_at (mem st) (page_start p) (word_of_nat (size_classes ! j))"
          using is_block_props(4) [OF a up] by simp
        then have "(word_of_nat (size_classes ! j) :: addr) = word_of_nat (size_classes ! i)"
          using pp(4) by (rule header_at_unique)
        then have "j = i" by (rule word_of_nat_class_inj [OF that(1) assms(2)])
        then show False using False by simp
      qed
      then show "load64 ?m' a = load64 (mem st) a" using a other by blast
    qed
    then have "is_block st j b" using assms(1) that(1) by (simp add: wf_def)
    then show ?thesis by (simp add: ib)
  qed
  show "wf st'"
    unfolding wf_def
  proof (intro conjI)
    show "length (freelists st') = 8" using len by (simp add: st'_def)
    show "\<forall>pg\<in>set (carved st').
       user_page pg \<and> (\<exists>i<8. header_at (mem st') pg (word_of_nat (size_classes ! i)))"
      using assms(1) hdr by (simp add: wf_def st'_def)
    show "\<forall>i<8. \<forall>b. on_list (mem st') (freelists st' ! i) b \<longrightarrow> is_block st' i b"
      using lists by blast
    show "\<forall>r\<in>set (os st'). r = MAP_FAILED \<or> user_page r \<and> r \<notin> set (carved st')"
      using assms(1) by (simp add: wf_def st'_def)
    show "distinct (filter (\<lambda>r. r \<noteq> MAP_FAILED) (os st'))"
      using assms(1) by (simp add: wf_def st'_def)
  qed
qed

lemma xxmalloc_carve_fails:
  assumes "n \<le> 2048" "i < 8" "roundPowers (ucast n) = word_of_nat (size_classes ! i)"
    "freelists st ! i = 0" "os st = [] \<or> hd (os st) = MAP_FAILED"
  shows "\<exists>st'. xxmalloc st n = Inl (Exit EXIT_FAILURE, st') \<and>
           diags st' = diags st @ [Perror ''failed to allocate space'']"
proof (cases "os st")
  case Nil
  then show ?thesis
    using assms(4)
    by (simp add: xxmalloc_small [OF assms(1-3)] allocate_blocks_def mmap_def PAGE_SIZE_def
        MAP_FAILED_def perror_def)
next
  case (Cons r rest)
  then have "r = MAP_FAILED" using assms(5) by simp
  then show ?thesis
    using assms(4) Cons
    by (simp add: xxmalloc_small [OF assms(1-3)] allocate_blocks_def mmap_def PAGE_SIZE_def
        MAP_FAILED_def perror_def)
qed

lemma xxmalloc_small_cases:
  assumes "wf st" "n \<le> 2048" "i < 8" "roundPowers (ucast n) = word_of_nat (size_classes ! i)"
  shows "(\<exists>p st'. xxmalloc st n = Inr (p, st') \<and> is_block st' i p \<and> wf st' \<and>
            (\<forall>k. k \<noteq> i \<longrightarrow> freelists st' ! k = freelists st ! k) \<and>
            (\<forall>j b. is_block st j b \<longrightarrow> is_block st' j b)) \<or>
         (freelists st ! i = 0 \<and> (os st = [] \<or> hd (os st) = MAP_FAILED) \<and>
          (\<exists>st'. xxmalloc st n = Inl (Exit EXIT_FAILURE, st') \<and>
             diags st' = diags st @ [Perror ''failed to allocate space'']))"
proof (cases "freelists st ! i = 0")
  case False
  let ?st' = "st\<lparr>freelists := (freelists st)[i := load64 (mem st) (freelists st ! i)]\<rparr>"
  have "\<forall>k. k \<noteq> i \<longrightarrow> freelists ?st' ! k = freelists st ! k"
    by simp
  moreover have "\<forall>j b. is_block st j b \<longrightarrow> is_block ?st' j b"
    by (simp add: is_block_def)
  ultimately show ?thesis
    using xxmalloc_pop [OF assms(2-4) False] xxmalloc_pop_wf [OF assms(1,3) False] by blast
next
  case True
  show ?thesis
  proof (cases "os st = [] \<or> hd (os st) = MAP_FAILED")
    case True
    then show ?thesis
      using xxmalloc_carve_fails [OF assms(2-4) \<open>freelists st ! i = 0\<close>] \<open>freelists st ! i = 0\<close>
      by blast
  next
    case False
    then obtain r rest where "os st = r # rest" "r \<noteq> MAP_FAILED"
      by (cases "os st") auto
    from xxmalloc_carve [OF assms True this] show ?thesis by blast
  qed
qed

lemma usable_size_block:
  assumes "wf st" "i < 8" "is_block st i p"
  shows "xxmalloc_usable_size st p = word_of_nat (size_classes ! i)"
proof -
  have up: "\<forall>pg \<in> set (carved st). user_page pg"
    using assms(1) by (simp add: wf_def)
  note pp = is_block_props [OF assms(3) up]
  show ?thesis
    using pp(1,4) by (simp add: xxmalloc_usable_size_def header_at_def Let_def)
qed

section \<open>The invariant holds in every state reached\<close>

lemma xxmalloc_large:
  assumes "wf st" "2048 < n" "xxmalloc st n = Inr (p, st')"
    "\<forall>pg \<in> set (carved st). \<forall>x. x - pg < 0x1000 \<longrightarrow> \<not> x - p < ROUND_UP n PAGE_SIZE"
  shows "wf st'" "freelists st' = freelists st" "\<And>j b. is_block st j b \<Longrightarrow> is_block st' j b"
proof -
  define len where "len = ROUND_UP n PAGE_SIZE"
  define mz where "mz = (\<lambda>x. if x - p < len then 0 else mem st x)"
  obtain rest where os: "os st = p # rest" and pf: "p \<noteq> MAP_FAILED"
    and st': "st' = st\<lparr>os := rest, mem := mz\<rparr>"
    using assms(2,3)
    by (auto simp: xxmalloc_def mmap_def log_message_def len_def mz_def
        split: if_splits list.splits sum.splits)
  have up: "\<forall>pg \<in> set (carved st). user_page pg"
    using assms(1) by (simp add: wf_def)
  have cell: "\<forall>x \<in> bytes b 16. mz x = mem st x"
    if "pg \<in> set (carved st)" "aligned16 b" "b - pg < 0x1000" for pg b
  proof
    fix x assume "x \<in> bytes b 16"
    have "page_aligned pg" using up that(1) by (simp add: user_page_def)
    then have "x - pg < 0x1000"
      using that(2,3) \<open>x \<in> bytes b 16\<close> by (rule cell_in_page)
    then have "\<not> x - p < len"
      using assms(4) that(1) by (simp add: len_def)
    then show "mz x = mem st x" by (simp add: mz_def)
  qed
  have hdr: "header_at mz pg s = header_at (mem st) pg s" if "pg \<in> set (carved st)" for pg s
  proof -
    have "page_aligned pg" using up that by (simp add: user_page_def)
    then have "aligned16 pg" by (rule page_aligned_aligned16)
    then have "\<forall>x \<in> bytes pg 16. mz x = mem st x"
      using cell [OF that] by simp
    then show ?thesis by (rule header_at_cong)
  qed
  show ib: "is_block st' j b" if "is_block st j b" for j b
    using that hdr by (auto simp: is_block_def st')
  show "freelists st' = freelists st" by (simp add: st')
  have ld: "load64 mz b = load64 (mem st) b" if b: "is_block st j b" for j b
  proof -
    obtain pg where "pg \<in> set (carved st)" "aligned16 b" "b - pg < 0x1000"
      using b by (auto simp: is_block_def)
    then have "\<forall>x \<in> bytes b 16. mz x = mem st x" by (rule cell)
    then have "\<forall>x \<in> bytes b 8. mz x = mem st x" using bytes8_cell by blast
    then show ?thesis by (rule load64_eq)
  qed
  have lists: "is_block st' j b" if "j < 8" "on_list (mem st') (freelists st' ! j) b" for j b
  proof -
    have "on_list mz (freelists st ! j) b" using that(2) by (simp add: st')
    then have "on_list (mem st) (freelists st ! j) b"
    proof (rule on_list_frame)
      fix a assume "on_list (mem st) (freelists st ! j) a"
      then have "is_block st j a" using assms(1) that(1) by (simp add: wf_def)
      then show "load64 mz a = load64 (mem st) a" by (rule ld)
    qed
    then have "is_block st j b" using assms(1) that(1) by (simp add: wf_def)
    then show ?thesis by (rule ib)
  qed
  have d: "distinct (filter (\<lambda>x. x \<noteq> MAP_FAILED) (p # rest))"
    using assms(1) os by (simp add: wf_def)
  show "wf st'"
    unfolding wf_def
  proof (intro conjI)
    show "length (freelists st') = 8" using assms(1) by (simp add: wf_def st')
    show "\<forall>pg\<in>set (carved st').
       user_page pg \<and> (\<exists>i<8. header_at (mem st') pg (word_of_nat (size_classes ! i)))"
      using assms(1) hdr by (simp add: wf_def st')
    show "\<forall>i<8. \<forall>b. on_list (mem st') (freelists st' ! i) b \<longrightarrow> is_block st' i b"
      using lists by blast
    show "\<forall>r\<in>set (os st'). r = MAP_FAILED \<or> user_page r \<and> r \<notin> set (carved st')"
      using assms(1) os by (simp add: wf_def st')
    show "distinct (filter (\<lambda>r. r \<noteq> MAP_FAILED) (os st'))"
      using d pf by (simp add: st')
  qed
qed

lemma xxfree_rejected:
  assumes "p = 0 \<or> load32 (mem st) (page_start p) \<noteq> MAGIC_NUMBER" "xxfree st p = Inr st'"
  shows "\<exists>d. st' = st\<lparr>diags := d\<rparr>"
proof (cases "p = 0")
  case True
  then have "st' = st" using assms(2) by (simp add: xxfree_def)
  then have "st' = st\<lparr>diags := diags st\<rparr>" by simp
  then show ?thesis by blast
next
  case False
  then have "st' = st\<lparr>diags := diags st @ [Perror ''pointer not allocated using custom malloc'']\<rparr>"
    using assms by (simp add: xxfree_def xxmalloc_usable_size_def Let_def perror_def)
  then show ?thesis by blast
qed

lemma wf_diags: "wf (st\<lparr>diags := d\<rparr>) = wf st"
  by (simp add: wf_def is_block_def)

lemma reaches_invariant:
  assumes "reaches S st st'" "wf st"
  shows "wf st' \<and> (\<forall>j b. is_block st j b \<longrightarrow> is_block st' j b) \<and>
         (\<forall>i \<in> S. freelists st' ! i = freelists st ! i)"
  using assms(1)
proof induction
  case start
  then show ?case using assms(2) by simp
next
  case (small st1 n i p st2)
  then have w: "wf st1" by simp
  from xxmalloc_small_cases [OF w small.hyps(2,3,4)] small.hyps(6)
  have "wf st2" "\<forall>k. k \<noteq> i \<longrightarrow> freelists st2 ! k = freelists st1 ! k"
    "\<forall>j b. is_block st1 j b \<longrightarrow> is_block st2 j b"
    by auto
  then show ?case using small.IH small.hyps(5) by auto
next
  case (large st1 n p st2)
  then have w: "wf st1" by simp
  note l = xxmalloc_large [OF w large.hyps(2,3,4)]
  show ?case using l large.IH by auto
next
  case (free st1 i p st2)
  then have w: "wf st1" by simp
  note f = xxfree_block [OF w free.hyps(2,3)]
  have st2: "st2 = st1\<lparr>mem := store64 (mem st1) p (freelists st1 ! i),
                       freelists := (freelists st1)[i := p]\<rparr>"
    using f(1) free.hyps(5) by simp
  have "wf st2" "\<And>j b. is_block st2 j b = is_block st1 j b"
    using f(2,3) by (simp_all only: st2)
  moreover have "\<forall>k \<in> S. freelists st2 ! k = freelists st1 ! k"
  proof
    fix k assume "k \<in> S"
    then have "k \<noteq> i" using free.hyps(4) by blast
    then show "freelists st2 ! k = freelists st1 ! k" by (simp add: st2)
  qed
  ultimately show ?case using free.IH by auto
next
  case (reject st1 p st2)
  then obtain d where "st2 = st1\<lparr>diags := d\<rparr>"
    using xxfree_rejected by blast
  then show ?case using reject.IH by (simp add: wf_diags is_block_def)
qed

section \<open>Runs of allocations of one class\<close>

lemma xxmalloc_all_append:
  "xxmalloc_all st (xs @ ys) =
     (case xxmalloc_all st xs of
        Inl e \<Rightarrow> Inl e
      | Inr (ps, st1) \<Rightarrow>
          (case xxmalloc_all st1 ys of
             Inl e \<Rightarrow> Inl e
           | Inr (qs, st2) \<Rightarrow> Inr (ps @ qs, st2)))"
  by (induction xs arbitrary: st) (auto split: sum.splits prod.splits)

lemma xxmalloc_carve_first:
  assumes "n \<le> 2048" "i < 8" "roundPowers (ucast n) = word_of_nat (size_classes ! i)"
    "length (freelists st) = 8" "freelists st ! i = 0" "os st = r # rest" "page_aligned r"
  defines "c \<equiv> size_classes ! i"
  shows "\<exists>st'. xxmalloc st n = Inr (blk r c 1, st') \<and>
           (\<forall>j. 1 \<le> j \<and> Suc j < 4096 div c \<longrightarrow> load64 (mem st') (blk r c j) = blk r c (Suc j)) \<and>
           load64 (mem st') (blk r c (4096 div c - 1)) = 0 \<and>
           freelists st' ! i = (if 2 < 4096 div c then blk r c 2 else 0) \<and>
           length (freelists st') = 8 \<and> os st' = rest \<and> carved st' = carved st @ [r]"
proof -
  have cin: "c \<in> set size_classes"
    unfolding c_def by (rule class_nth [OF assms(2)])
  have cf: "2 \<le> 4096 div c"
    using class_facts [OF cin] by simp
  obtain m' where
    res: "allocate_blocks st (word_of_nat c) =
           Inr (blk r c 1, st\<lparr>os := rest, mem := m', carved := carved st @ [r]\<rparr>)" and
    lnk: "\<forall>j. 1 \<le> j \<and> Suc j < 4096 div c \<longrightarrow> load64 m' (blk r c j) = blk r c (Suc j)" and
    lst: "load64 m' (blk r c (4096 div c - 1)) = 0"
    using allocate_blocks_carves [OF cin assms(6,7)] by blast
  define st' where "st' = st\<lparr>os := rest, mem := m', carved := carved st @ [r],
     freelists := (freelists st)[i := load64 m' (blk r c 1)]\<rparr>"
  have run: "xxmalloc st n = Inr (blk r c 1, st')"
    using assms(2,4,5) res
    by (simp add: xxmalloc_small [OF assms(1-3)] c_def [symmetric] st'_def)
  have "load64 m' (blk r c 1) = (if 2 < 4096 div c then blk r c 2 else 0)"
  proof (cases "2 < 4096 div c")
    case True
    then show ?thesis using lnk by (simp add: numeral_2_eq_2)
  next
    case False
    then have "4096 div c - 1 = 1" using cf by simp
    then show ?thesis using lst False by simp
  qed
  then have "freelists st' ! i = (if 2 < 4096 div c then blk r c 2 else 0)"
    using assms(2,4) by (simp add: st'_def)
  then show ?thesis
    using run lnk lst assms(4) by (auto simp: st'_def)
qed

lemma xxmalloc_drain:
  assumes "i < 8" "page_aligned pg"
  defines "c \<equiv> size_classes ! i"
  defines "N \<equiv> 4096 div c"
  shows "\<forall>t. 1 \<le> t \<and> Suc t < N \<longrightarrow> load64 (mem st) (blk pg c t) = blk pg c (Suc t) \<Longrightarrow>
     load64 (mem st) (blk pg c (N - 1)) = 0 \<Longrightarrow>
     length (freelists st) = 8 \<Longrightarrow> 1 \<le> j \<Longrightarrow> j + length ns \<le> N \<Longrightarrow>
     freelists st ! i = (if j < N then blk pg c j else 0) \<Longrightarrow>
     \<forall>n \<in> set ns. n \<le> 2048 \<and> roundPowers (ucast n) = word_of_nat c \<Longrightarrow>
     \<exists>st'. xxmalloc_all st ns = Inr (map (blk pg c) [j..<j + length ns], st') \<and>
           mem st' = mem st \<and> carved st' = carved st \<and> os st' = os st \<and>
           length (freelists st') = 8 \<and>
           freelists st' ! i = (if j + length ns < N then blk pg c (j + length ns) else 0)"
proof (induction ns arbitrary: j st)
  case Nil
  then show ?case by simp
next
  case (Cons n ns)
  have cin: "c \<in> set size_classes"
    unfolding c_def by (rule class_nth [OF assms(1)])
  have cf: "N * c = 4096" "0 < c"
    using class_facts [OF cin] by (simp_all add: N_def)
  have jN: "j < N" using Cons.prems(5) by simp
  then have "j * c < N * c" by (intro mult_less_mono1) (use cf in simp_all)
  then have "j * c < 4096" using cf by simp
  then have nz: "blk pg c j \<noteq> 0"
    using Cons.prems(4) cf by (intro blk_nonzero [OF assms(2)]) simp_all
  have hd: "freelists st ! i = blk pg c j" using Cons.prems(6) jN by simp
  have n: "n \<le> 2048" "roundPowers (ucast n) = word_of_nat (size_classes ! i)"
    using Cons.prems(7) by (simp_all add: c_def)
  define st1 where "st1 = st\<lparr>freelists := (freelists st)[i := load64 (mem st) (blk pg c j)]\<rparr>"
  have pop: "xxmalloc st n = Inr (blk pg c j, st1)"
    using xxmalloc_pop [OF n(1) assms(1) n(2), of st] nz hd by (simp add: st1_def)
  have nxt: "load64 (mem st) (blk pg c j) = (if Suc j < N then blk pg c (Suc j) else 0)"
  proof (cases "Suc j < N")
    case True
    then show ?thesis using Cons.prems(1,4) by simp
  next
    case False
    then have "j = N - 1" using jN by simp
    then show ?thesis using Cons.prems(2) False by simp
  qed
  have "\<exists>st'. xxmalloc_all st1 ns = Inr (map (blk pg c) [Suc j..<Suc j + length ns], st') \<and>
           mem st' = mem st1 \<and> carved st' = carved st1 \<and> os st' = os st1 \<and>
           length (freelists st') = 8 \<and>
           freelists st' ! i = (if Suc j + length ns < N then blk pg c (Suc j + length ns) else 0)"
  proof (rule Cons.IH)
    show "\<forall>t. 1 \<le> t \<and> Suc t < N \<longrightarrow> load64 (mem st1) (blk pg c t) = blk pg c (Suc t)"
      using Cons.prems(1) by (simp add: st1_def)
    show "load64 (mem st1) (blk pg c (N - 1)) = 0"
      using Cons.prems(2) by (simp add: st1_def)
    show "length (freelists st1) = 8" using Cons.prems(3) by (simp add: st1_def)
    show "1 \<le> Suc j" by simp
    show "Suc j + length ns \<le> N" using Cons.prems(5) by simp
    show "freelists st1 ! i = (if Suc j < N then blk pg c (Suc j) else 0)"
      using nxt Cons.prems(3) assms(1) by (simp add: st1_def)
    show "\<forall>n\<in>set ns. n \<le> 2048 \<and> roundPowers (ucast n) = word_of_nat c"
      using Cons.prems(7) by simp
  qed
  then obtain st' where
    r: "xxmalloc_all st1 ns = Inr (map (blk pg c) [Suc j..<Suc j + length ns], st')" and
    s: "mem st' = mem st1" "carved st' = carved st1" "os st' = os st1"
      "length (freelists st') = 8"
      "freelists st' ! i = (if Suc j + length ns < N then blk pg c (Suc j + length ns) else 0)"
    by blast
  have "[j..<j + length (n # ns)] = j # [Suc j..<Suc j + length ns]"
    by (simp add: upt_rec)
  then have "xxmalloc_all st (n # ns) = Inr (map (blk pg c) [j..<j + length (n # ns)], st')"
    using pop r by simp
  then show ?case
    using s by (auto simp: st1_def)
qed

lemma need_one: "1 \<le> k \<Longrightarrow> k \<le> B \<Longrightarrow> (k + B - 1) div B = (1::nat)"
proof -
  assume a: "1 \<le> k" "k \<le> B"
  then have e: "k + B - 1 = (k - 1) + B" and l: "k - 1 < B" by simp_all
  have "((k - 1) + B) div B = Suc ((k - 1) div B)"
    using a by (simp only: div_add_self2)
  then show ?thesis using l by (simp only: e) simp
qed

lemma need_more: "B < k \<Longrightarrow> 0 < B \<Longrightarrow> (k + B - 1) div B = Suc ((k - B + B - 1) div B)"
proof -
  assume a: "B < k" "0 < B"
  then have "k + B - 1 = (k - B + B - 1) + B" by simp
  then show ?thesis using a(2) by (simp only: div_add_self2)
qed

lemma need_zero: "0 < B \<Longrightarrow> ((0::nat) + B - 1) div B = 0"
  by simp

lemma upt_blocks_split: "1 \<le> a \<Longrightarrow> [1..<Suc a] = 1 # [2..<Suc a]"
  by (simp add: upt_rec numeral_2_eq_2)

lemma xxmalloc_all_pages:
  assumes "i < 8"
  defines "c \<equiv> size_classes ! i"
  defines "N \<equiv> 4096 div c"
  shows "os st = tape \<Longrightarrow> length (freelists st) = 8 \<Longrightarrow> freelists st ! i = 0 \<Longrightarrow>
     \<forall>n \<in> set ns. n \<le> 2048 \<and> roundPowers (ucast n) = word_of_nat c \<Longrightarrow>
     (length ns + (N - 1) - 1) div (N - 1) \<le> length tape \<Longrightarrow>
     \<forall>r \<in> set (take ((length ns + (N - 1) - 1) div (N - 1)) tape). page_aligned r \<Longrightarrow>
     \<exists>st'. xxmalloc_all st ns =
             Inr (take (length ns) (concat (map (\<lambda>r. map (blk r c) [1..<N]) tape)), st') \<and>
           carved st' = carved st @ take ((length ns + (N - 1) - 1) div (N - 1)) tape"
proof (induction tape arbitrary: st ns)
  case Nil
  have cin: "c \<in> set size_classes"
    unfolding c_def by (rule class_nth [OF assms(1)])
  have B: "0 < N - 1" using class_facts [OF cin] by (simp add: N_def)
  have "ns = []"
  proof (rule ccontr)
    assume "ns \<noteq> []"
    then have "N - 1 \<le> length ns + (N - 1) - 1" by (cases ns) simp_all
    then have "0 < (length ns + (N - 1) - 1) div (N - 1)"
      using B by (simp add: div_greater_zero_iff)
    then show False using Nil.prems(5) by simp
  qed
  then show ?case by simp
next
  case (Cons r rest)
  define B where "B = N - 1"
  have cin: "c \<in> set size_classes"
    unfolding c_def by (rule class_nth [OF assms(1)])
  have N2: "2 \<le> N" using class_facts [OF cin] by (simp add: N_def)
  then have B: "0 < B" "N = Suc B" by (simp_all add: B_def)
  show ?case
  proof (cases ns)
    case Nil
    then show ?thesis using B by (simp add: B_def [symmetric])
  next
    case (Cons n ns')
    define k where "k = length ns"
    have k: "1 \<le> k" "length ns' = k - 1" using Cons by (simp_all add: k_def)
    define need where "need = (k + B - 1) div B"
    have need_pos: "0 < need"
    proof -
      have "B \<le> k + B - 1" using k(1) by simp
      then show ?thesis using B(1) by (simp add: need_def div_greater_zero_iff)
    qed
    have al: "\<forall>x \<in> set (take need (r # rest)). page_aligned x"
      using Cons.prems(6) by (simp add: need_def k_def B_def)
    have nl: "need \<le> length (r # rest)"
      using Cons.prems(5) by (simp add: need_def k_def B_def)
    have pr: "page_aligned r"
      using al need_pos by (cases need) simp_all
    have n: "n \<le> 2048" "roundPowers (ucast n) = word_of_nat (size_classes ! i)"
      using Cons.prems(4) Cons by (simp_all add: c_def)
    have ns'ok: "\<forall>n \<in> set ns'. n \<le> 2048 \<and> roundPowers (ucast n) = word_of_nat c"
      using Cons.prems(4) Cons by simp
    obtain st1 where
      first: "xxmalloc st n = Inr (blk r c 1, st1)" and
      lnk: "\<forall>j. 1 \<le> j \<and> Suc j < N \<longrightarrow> load64 (mem st1) (blk r c j) = blk r c (Suc j)" and
      lst: "load64 (mem st1) (blk r c (N - 1)) = 0" and
      h1: "freelists st1 ! i = (if 2 < N then blk r c 2 else 0)" and
      s1: "length (freelists st1) = 8" "os st1 = rest" "carved st1 = carved st @ [r]"
      using xxmalloc_carve_first [OF n(1) assms(1) n(2) Cons.prems(2,3,1) pr]
      unfolding c_def [symmetric] N_def [symmetric] by blast
    define a where "a = min (k - 1) (B - 1)"
    define ns1 where "ns1 = take a ns'"
    define ns2 where "ns2 = drop a ns'"
    have l1: "length ns1 = a" using k(2) by (simp add: ns1_def a_def)
    have l2: "length ns2 = k - 1 - a" using k(2) by (simp add: ns2_def)
    have split: "ns = n # ns1 @ ns2" using Cons by (simp add: ns1_def ns2_def)
    have "\<exists>st'. xxmalloc_all st1 ns1 = Inr (map (blk r c) [2..<2 + length ns1], st') \<and>
           mem st' = mem st1 \<and> carved st' = carved st1 \<and> os st' = os st1 \<and>
           length (freelists st') = 8 \<and>
           freelists st' ! i = (if 2 + length ns1 < N then blk r c (2 + length ns1) else 0)"
      unfolding c_def N_def
    proof (rule xxmalloc_drain [OF assms(1) pr])
      show "\<forall>t. 1 \<le> t \<and> Suc t < 4096 div size_classes ! i \<longrightarrow>
              load64 (mem st1) (blk r (size_classes ! i) t) = blk r (size_classes ! i) (Suc t)"
        using lnk by (simp add: c_def N_def)
      show "load64 (mem st1) (blk r (size_classes ! i) (4096 div size_classes ! i - 1)) = 0"
        using lst by (simp add: c_def N_def)
      show "length (freelists st1) = 8" by (rule s1(1))
      show "(1::nat) \<le> 2" by simp
      show "2 + length ns1 \<le> 4096 div size_classes ! i"
        using l1 B by (simp add: a_def N_def [symmetric] c_def [symmetric])
      show "freelists st1 ! i =
          (if 2 < 4096 div size_classes ! i then blk r (size_classes ! i) 2 else 0)"
        using h1 by (simp add: c_def N_def)
      show "\<forall>n\<in>set ns1. n \<le> 2048 \<and> roundPowers (ucast n) = word_of_nat (size_classes ! i)"
        using ns'ok by (auto simp: ns1_def c_def dest: in_set_takeD)
    qed
    then obtain st2 where
      drain: "xxmalloc_all st1 ns1 = Inr (map (blk r c) [2..<2 + a], st2)" and
      s2: "carved st2 = carved st1" "os st2 = os st1" "length (freelists st2) = 8"
        "freelists st2 ! i = (if 2 + a < N then blk r c (2 + a) else 0)"
      unfolding l1 by blast
    define L2 where "L2 = map (blk r c) [2..<2 + a]"
    define F where "F = (\<lambda>r. map (blk r c) [1..<N])"
    have drain': "xxmalloc_all st1 ns1 = Inr (L2, st2)"
      by (simp only: drain L2_def)
    have "[1..<2 + a] = 1 # [2..<2 + a]"
      by (rule upt_conv_Cons [of 1 "2 + a", unfolded Suc_1]) simp
    then have page: "blk r c 1 # L2 = map (blk r c) [1..<2 + a]"
      by (simp only: list.map L2_def)
    have len: "length (F r) = B"
      by (simp add: B_def F_def)
    have tk: "take k (concat (map F (r # rest))) =
            take k (F r) @ take (k - B) (concat (map F rest))"
      by (simp only: list.map concat.simps take_append len)
    have goal: ?thesis
      if run: "xxmalloc_all st ns = Inr (X, st')" and e: "take k (concat (map F (r # rest))) = X"
        and cv: "carved st' = carved st @ take need (r # rest)" for X st'
    proof -
      have "xxmalloc_all st ns =
          Inr (take (length ns) (concat (map (\<lambda>r. map (blk r c) [1..<N]) (r # rest))), st')"
        using run e by (simp only: k_def F_def)
      moreover have "carved st' =
          carved st @ take ((length ns + (N - 1) - 1) div (N - 1)) (r # rest)"
        using cv by (simp only: need_def k_def B_def)
      ultimately show ?thesis by blast
    qed
    show ?thesis
    proof (cases "k \<le> B")
      case True
      then have a: "a = k - 1" by (simp add: a_def)
      then have "ns2 = []" using l2 by simp
      then have sp: "ns = n # ns1" using split by simp
      have run: "xxmalloc_all st ns = Inr (blk r c 1 # L2, st2)"
        using first drain' by (simp add: sp)
      have e2: "2 + a = 1 + k" using a k(1) by simp
      have "k - B = 0" using True by simp
      then have "take k (concat (map F (r # rest))) = take k (F r)"
        by (simp only: tk take_0 append_Nil2)
      also have "\<dots> = map (blk r c) (take k [1..<N])"
        by (simp only: F_def take_map)
      also have "take k [1..<N] = [1..<1 + k]"
        by (rule take_upt) (use True B in simp)
      also have "map (blk r c) [1..<1 + k] = blk r c 1 # L2"
        by (simp only: page e2)
      finally have e: "take k (concat (map F (r # rest))) = blk r c 1 # L2" .
      have "need = 1" unfolding need_def by (rule need_one [OF k(1) True])
      then have "carved st2 = carved st @ take need (r # rest)"
        using s1 s2 by simp
      with run e show ?thesis by (rule goal)
    next
      case False
      then have a: "a = B - 1" by (simp add: a_def)
      then have full: "2 + a = N" using B by simp
      have empty: "freelists st2 ! i = 0" using s2(4) full by simp
      have l2': "length ns2 = k - B" using l2 a B by simp
      have nm: "need = Suc ((k - B + B - 1) div B)"
        unfolding need_def by (rule need_more) (use False B in simp_all)
      have "\<exists>st'. xxmalloc_all st2 ns2 =
             Inr (take (length ns2) (concat (map (\<lambda>r. map (blk r c) [1..<N]) rest)), st') \<and>
           carved st' = carved st2 @ take ((length ns2 + (N - 1) - 1) div (N - 1)) rest"
      proof (rule Cons.IH)
        show "os st2 = rest" using s2 s1 by simp
        show "length (freelists st2) = 8" by (rule s2(3))
        show "freelists st2 ! i = 0" by (rule empty)
        show "\<forall>n\<in>set ns2. n \<le> 2048 \<and> roundPowers (ucast n) = word_of_nat c"
          using ns'ok by (auto simp: ns2_def dest: in_set_dropD)
        show "(length ns2 + (N - 1) - 1) div (N - 1) \<le> length rest"
          unfolding l2' B_def [symmetric] using nl nm by simp
        show "\<forall>r\<in>set (take ((length ns2 + (N - 1) - 1) div (N - 1)) rest). page_aligned r"
          unfolding l2' B_def [symmetric] using al nm by simp
      qed
      then obtain st3 where
        more: "xxmalloc_all st2 ns2 = Inr (take (k - B) (concat (map F rest)), st3)" and
        s3: "carved st3 = carved st2 @ take ((k - B + B - 1) div B) rest"
        unfolding l2' B_def [symmetric] F_def [symmetric] by blast
      have run: "xxmalloc_all st ns =
          Inr ((blk r c 1 # L2) @ take (k - B) (concat (map F rest)), st3)"
        using first drain' more by (simp add: split xxmalloc_all_append)
      have "F r = blk r c 1 # L2"
        by (simp only: F_def page full)
      moreover have "take k (F r) = F r"
        using False len by simp
      ultimately have e: "take k (concat (map F (r # rest))) =
            (blk r c 1 # L2) @ take (k - B) (concat (map F rest))"
        by (simp only: tk)
      have "carved st3 = carved st @ take need (r # rest)"
        using s3 s2 s1 nm by simp
      with run e show ?thesis by (rule goal)
    qed
  qed
qed

lemma pages_needed_ceiling:
  assumes "0 < blocks_per_page c"
  shows "k \<le> pages_needed k c * blocks_per_page c"
    "0 < k \<Longrightarrow> (pages_needed k c - 1) * blocks_per_page c < k"
proof -
  define B where "B = blocks_per_page c"
  define q where "q = (k + B - 1) div B"
  have B: "0 < B" using assms by (simp add: B_def)
  have "k + B - 1 < B + B * q"
    unfolding q_def using B by (rule dividend_less_times_div)
  then have "k \<le> q * B" using B by (simp add: mult.commute)
  then show "k \<le> pages_needed k c * blocks_per_page c"
    by (simp add: pages_needed_def q_def B_def)
  show "(pages_needed k c - 1) * blocks_per_page c < k" if "0 < k"
  proof -
    have "q * B \<le> k + B - 1"
      unfolding q_def by simp
    then have "q * B - B < k" using that B by simp
    then have "(q - 1) * B < k" by (simp add: diff_mult_distrib)
    then show ?thesis by (simp add: pages_needed_def q_def B_def)
  qed
qed

lemma concat_product:
  "concat (map (\<lambda>r. map (f r) js) rs) = map (\<lambda>(r, j). f r j) (List.product rs js)"
  by (induction rs) (simp_all add: comp_def)

lemma unat_class: "c \<in> set size_classes \<Longrightarrow> unat (word_of_nat c :: addr) = c"
  using class_facts [of c] by (simp add: unat_of_nat)

lemma no_overlap_one_way:
  assumes "c \<in> set size_classes" "page_aligned P" "page_aligned Q"
    "1 \<le> ja" "ja < 4096 div c" "1 \<le> jb" "jb < 4096 div c"
    "blk Q c jb - blk P c ja < word_of_nat c"
  shows "P = Q \<and> ja = jb"
proof -
  have cf: "(4096 div c) * c = 4096" "0 < c"
    using class_facts [OF assms(1)] by simp_all
  define e where "e = unat (blk Q c jb - blk P c ja)"
  have e: "e < c"
    using assms(8) by (simp add: e_def word_less_nat_alt unat_class [OF assms(1)])
  have "Suc ja * c \<le> (4096 div c) * c"
    by (rule mult_le_mono1) (use assms(5) in simp)
  then have ja: "ja * c + c \<le> 4096" using cf by simp
  have "jb * c < (4096 div c) * c"
    by (rule mult_less_mono1) (use assms(7) cf in simp_all)
  then have jb: "jb * c < 4096" using cf by simp
  have q1: "blk Q c jb = P + word_of_nat (ja * c + e)"
    by (simp add: e_def blk_def del: of_nat_mult)
  have lt: "ja * c + e < 4096" using ja e by simp
  have "blk Q c jb - P < 0x1000"
    unfolding q1 using lt by (simp add: word_less_nat_alt unat_of_nat del: of_nat_mult of_nat_add)
  moreover have "blk Q c jb - Q < 0x1000"
    using jb by (rule blk_in_page)
  ultimately have PQ: "P = Q"
    by (rule pages_disjoint [OF assms(2,3)])
  have "P + word_of_nat (jb * c) = P + word_of_nat (ja * c + e)"
    using q1 by (simp only: PQ blk_def)
  then have "jb * c = ja * c + e"
    by (rule page_offset_inj [OF assms(2) jb lt])
  then have l: "jb * c < Suc ja * c" and g: "ja * c \<le> jb * c" using e by simp_all
  have "jb < Suc ja" using l by (rule mult_less_cancel2 [THEN iffD1, THEN conjunct2])
  moreover have "ja \<le> jb" using g cf(2) by simp
  ultimately show ?thesis using PQ by simp
qed

lemma no_overlap_blocks:
  assumes "c \<in> set size_classes" "page_aligned P" "page_aligned Q"
    "1 \<le> ja" "ja < 4096 div c" "1 \<le> jb" "jb < 4096 div c" "(P, ja) \<noteq> (Q, jb)"
  shows "\<not> overlap (blk P c ja) (blk Q c jb) c"
  using no_overlap_one_way [OF assms(1,2,3,4,5,6,7)] no_overlap_one_way [OF assms(1,3,2,6,7,4,5)]
    assms(8)
  by (auto simp: overlap_def)

lemma length_concat_uniform:
  "\<forall>x \<in> set xs. length (F x) = B \<Longrightarrow> length (concat (map F xs)) = length xs * B"
  by (induction xs) simp_all

lemma pages_needed_examples:
  "pages_needed 255 16 = 1" "pages_needed 256 16 = 2" "pages_needed 510 16 = 2"
  "pages_needed 511 16 = 3" "pages_needed 3 2048 = 3"
  by (simp_all add: pages_needed_def blocks_per_page_def)

section \<open>The low byte of the tag\<close>

lemma load32_low_byte: "(ucast (load32 m a) :: byte) = m a"
  unfolding load32_def by (rule bit_word_eqI) (auto simp: bit_simps)

lemma tag_low_byte: "load32 m a = MAGIC_NUMBER \<Longrightarrow> m a = 0x1E"
proof -
  assume "load32 m a = MAGIC_NUMBER"
  then have "(ucast (load32 m a) :: byte) = ucast MAGIC_NUMBER" by simp
  then show ?thesis by (simp add: load32_low_byte MAGIC_NUMBER_def)
qed

lemma scenario_numbers:
  "blk 0x3000 2048 (Suc 0) = 0x3800" "blk 0x2000 2048 (Suc 0) = 0x2800"
  "size_classes ! 7 = 2048" "page_start 0x2FF9 = 0x2000" "page_start 0x3800 = 0x3000"
  "page_start 0x2800 = 0x2000" "(0x2800 :: addr) + 0x7F9 = 0x2FF9"
  by (simp_all add: blk_def size_classes_def page_start_def signed_modulo_int_def)

lemma user_page_example: "user_page 0x3000" "user_page 0x2000"
  by (simp_all add: user_page_def page_aligned_def word_sle_eq)


subsection \<open>Reachable states and oversized regions\<close>

text \<open>
  Every state that the three entry points reach from the initial state satisfies the
  invariant, and a region handed out for an oversized request is zero-filled, so no page of
  it carries the tag of a carved page.
\<close>


lemma reachable_wf:
  assumes "\<forall>r \<in> set answers. r = MAP_FAILED \<or> user_page r"
    "distinct (filter (\<lambda>r. r \<noteq> MAP_FAILED) answers)"
    "reaches {} (init answers) st"
  shows "wf st"
  using reaches_invariant [OF assms(3) wf_init [OF assms(1,2)]] by simp

lemma round_up_aligned: "ROUND_UP n PAGE_SIZE mod 0x1000 = 0"
proof -
  have tb: "x mod 0x1000 = take_bit 12 x" for x :: addr
    by (simp add: take_bit_eq_mod)
  have "push_bit 12 (drop_bit 12 n) + take_bit 12 n = n"
    by (rule bits_ident)
  then have d: "n - take_bit 12 n = push_bit 12 (drop_bit 12 n)"
    by (simp add: algebra_simps)
  have "n + (0x1000 - take_bit 12 n) = push_bit 12 (drop_bit 12 n) + push_bit 12 1"
    using d by (simp add: algebra_simps)
  also have "\<dots> = push_bit 12 (drop_bit 12 n + 1)"
    by (simp only: push_bit_add)
  finally have r: "n + (0x1000 - take_bit 12 n) = push_bit 12 (drop_bit 12 n + 1)" .
  have "take_bit 12 (push_bit 12 (drop_bit 12 n + 1) :: addr) = 0"
    by (simp add: take_bit_push_bit)
  then have "(n + (0x1000 - n mod 0x1000)) mod 0x1000 = 0"
    by (simp only: tb r)
  then show ?thesis
    by (simp add: ROUND_UP_def PAGE_SIZE_def)
qed

lemma floor_room:
  fixes L d k :: nat
  assumes "L mod k = 0" "d < L" "0 < k"
  shows "d - d mod k + k \<le> L"
proof -
  have "k dvd L" using assms(1) by (rule mod_0_imp_dvd)
  then obtain qL where "L = k * qL" by (rule dvdE)
  then have L: "L = qL * k" by (simp add: mult.commute)
  have "d div k < qL"
    using assms(2,3) L by (simp add: div_less_iff_less_mult)
  then have "Suc (d div k) * k \<le> qL * k"
    by (intro mult_le_mono1) simp
  moreover have "d - d mod k = (d div k) * k"
    by (simp add: minus_mod_eq_div_mult)
  ultimately show ?thesis using L by simp
qed

lemma load32_zero: "load32 (\<lambda>_. 0) a = 0"
  by (simp add: load32_def)

lemma oversized_region_untagged:
  assumes "2048 < n" "xxmalloc st n = Inr (p, st')" "user_page p"
    "unat p + unat (ROUND_UP n PAGE_SIZE) \<le> 2 ^ 63" "q - p < ROUND_UP n PAGE_SIZE"
  shows "load32 (mem st') (page_start q) = 0"
proof -
  define len where "len = ROUND_UP n PAGE_SIZE"
  define d where "d = unat (q - p)"
  define e where "e = d - d mod 4096"
  have m: "mem st' = (\<lambda>x. if x - p < len then 0 else mem st x)"
    using assms(1,2)
    by (auto simp: xxmalloc_def mmap_def log_message_def len_def
        split: if_splits list.splits sum.splits)
  have pa: "page_aligned p" using assms(3) by (simp add: user_page_def)
  have dL: "d < unat len"
    using assms(5) by (simp add: d_def len_def word_less_nat_alt)
  have room: "unat p + unat len \<le> 2 ^ 63"
    using assms(4) by (simp add: len_def)
  have q: "q = p + word_of_nat d" by (simp add: d_def)
  have ud: "unat (word_of_nat d :: addr) = d"
    using dL room by (simp add: unat_of_nat)
  have "unat p + unat (word_of_nat d :: addr) < 2 ^ LENGTH(64)"
    using dL room by (simp add: ud)
  then have "unat (p + word_of_nat d) = unat p + unat (word_of_nat d :: addr)"
    by (rule unat_add_lem [THEN iffD1])
  then have uq: "unat q = unat p + d"
    unfolding q by (simp only: ud)
  then have "unat q < 2 ^ 63" using dL room by simp
  then have "0 \<le>s q" by (rule nonneg_if_small)
  then have ps: "page_start q = q - q mod 0x1000"
    by (rule page_start_nonneg)
  have "unat p mod 4096 = 0"
    using pa by (simp add: page_aligned_unat)
  then have "(unat p + d) mod 4096 = d mod 4096"
    by (simp add: mod_add_left_eq [symmetric, of "unat p"])
  then have "unat (q mod 0x1000) = d mod 4096"
    by (simp add: unat_mod_distrib uq)
  then have "q mod 0x1000 = word_of_nat (d mod 4096)"
    by (simp add: word_eq_iff_unsigned [where ?'a = nat] unat_of_nat)
  then have "page_start q = p + (word_of_nat d - word_of_nat (d mod 4096))"
    using ps q by simp
  also have "word_of_nat d - word_of_nat (d mod 4096) = (word_of_nat e :: addr)"
    unfolding e_def by (rule of_nat_diff [symmetric]) simp
  finally have pq: "page_start q = p + word_of_nat e" .
  have "unat len mod 4096 = 0"
    using round_up_aligned [of n]
    by (simp add: len_def word_eq_iff_unsigned [where ?'a = nat] unat_mod_distrib)
  then have eL: "e + 4096 \<le> unat len"
    unfolding e_def using dL by (rule floor_room) simp
  have "\<forall>x \<in> bytes (page_start q) 4. mem st' x = (\<lambda>_. 0) x"
  proof
    fix x assume "x \<in> bytes (page_start q) 4"
    then obtain i where i: "i < 4" "x = page_start q + word_of_nat i"
      using bytesE by blast
    then have "x - p = word_of_nat (e + i)" by (simp add: pq)
    moreover have "e + i < unat len" using i(1) eL by simp
    moreover from this have "unat (word_of_nat (e + i) :: addr) = e + i"
      using room by (simp add: unat_of_nat del: of_nat_add)
    ultimately have "x - p < len"
      by (simp add: word_less_nat_alt del: of_nat_add)
    then show "mem st' x = (\<lambda>_. 0) x" by (simp add: m)
  qed
  then have "load32 (mem st') (page_start q) = load32 (\<lambda>_. 0) (page_start q)"
    by (rule load32_eq)
  then show ?thesis by (simp only: load32_zero)
qed


section \<open>Two pages of the largest class\<close>

text \<open>
  The operating system answers with the page at \<open>0x3000\<close> and then with the page below
  it, at \<open>0x2000\<close>. Two requests of 2048 bytes carve both pages and return the single
  block of each, \<open>0x3800\<close> and \<open>0x2800\<close>. A link stored at \<open>0x2FF9\<close>, seven bytes before
  the end of the lower page, puts its last byte on the first byte of the upper page, the
  low byte of that page's tag.
\<close>

lemma class_2048:
  "(2048 :: addr) \<le> 2048" "(7::nat) < 8"
  "roundPowers (ucast (2048 :: addr)) = word_of_nat (size_classes ! 7)"
  by (simp_all add: roundPowers_def word_sle_eq size_classes_def)

lemma two_carved_pages:
  obtains st1 st2 where
    "xxmalloc (init [0x3000, 0x2000]) 2048 = Inr (0x3800, st1)"
    "xxmalloc st1 2048 = Inr (0x2800, st2)"
    "wf st2" "is_block st2 7 0x3800" "is_block st2 7 0x2800"
    "freelists st2 ! 7 = 0" "length (freelists st2) = 8"
    "carved st2 = [0x3000, 0x2000]"
proof -
  let ?st0 = "init [0x3000, 0x2000]"
  note n = class_2048
  have w0: "wf ?st0"
    by (rule wf_init) (auto simp: user_page_example)
  have N: "\<not> 2 < 4096 div size_classes ! 7"
    by (simp add: size_classes_def)
  have s0: "length (freelists ?st0) = 8" "freelists ?st0 ! 7 = 0" "os ?st0 = [0x3000, 0x2000]"
    "carved ?st0 = []"
    by (simp_all add: init_def)
  have pa: "page_aligned 0x3000" "page_aligned 0x2000" "(0x3000 :: addr) \<noteq> MAP_FAILED"
    "(0x2000 :: addr) \<noteq> MAP_FAILED"
    by (simp_all add: page_aligned_def MAP_FAILED_def)
  obtain st1 where
    a1: "xxmalloc ?st0 2048 = Inr (0x3800, st1)" and
    h1: "freelists st1 ! 7 = 0" "length (freelists st1) = 8" "os st1 = [0x2000]"
    using xxmalloc_carve_first [OF n s0(1,2,3) pa(1)] N by (auto simp: scenario_numbers)
  have w1: "wf st1" and b1: "is_block st1 7 0x3800" and c1: "carved st1 = [0x3000]"
    using xxmalloc_carve [OF w0 n s0(2,3) pa(3)] a1 s0(4) by (auto simp: scenario_numbers)
  obtain st2 where
    a2: "xxmalloc st1 2048 = Inr (0x2800, st2)" and
    h2: "freelists st2 ! 7 = 0" "length (freelists st2) = 8"
    using xxmalloc_carve_first [OF n h1(2,1,3) pa(2)] N by (auto simp: scenario_numbers)
  have w2: "wf st2" and b2: "is_block st2 7 0x2800" and c2: "carved st2 = [0x3000, 0x2000]"
    and mono: "\<forall>j b. is_block st1 j b \<longrightarrow> is_block st2 j b"
    using xxmalloc_carve [OF w1 n h1(1,3) pa(4)] a2 c1 by (auto simp: scenario_numbers)
  have b12: "is_block st2 7 0x3800" using b1 mono by blast
  show ?thesis
    by (rule that [OF a1 a2 w2 b12 b2 h2 c2])
qed

lemma link_reaches_next_page: "store64 m 0x2FF9 0x3800 0x3000 = 0" "store64 m 0x2FF9 0 0x3000 = 0"
  by (simp_all add: store64_def store_le_def byte_of_def)

lemma untagged_usable_size:
  "mem st 0x3000 = 0 \<Longrightarrow> xxmalloc_usable_size st 0x3800 = - 1"
  using tag_low_byte [of "mem st" "0x3000"]
  by (auto simp: xxmalloc_usable_size_def scenario_numbers)

section \<open>The size-class table rounds up\<close>

text \<open>
  C5. \<^verbatim>\<open>roundPowers\<close> answers \<open>- 1\<close> (oversized) exactly for a request above 2048; any
  other request, zero and the negative ones included, is rounded up to the least size
  class that is not below it, which for a request of at most 0 is 16.
\<close>

theorem roundPowers_classifies:
  "(roundPowers n = - 1 \<longleftrightarrow> 2048 < sint n) \<and>
   (sint n \<le> 2048 \<longrightarrow>
      sint (roundPowers n) \<in> int ` set size_classes \<and> sint n \<le> sint (roundPowers n) \<and>
      (\<forall>c \<in> set size_classes. sint n \<le> int c \<longrightarrow> sint (roundPowers n) \<le> int c)) \<and>
   (sint n \<le> 0 \<longrightarrow> roundPowers n = 16)"
  by (simp add: roundPowers_def word_sle_eq size_classes_def)

theorem roundPowers_classifies_witness:
  "roundPowers 100 = 128 \<and> roundPowers 2048 = 2048 \<and> roundPowers 2049 = - 1 \<and>
   roundPowers 0 = 16 \<and> roundPowers (- 7) = 16 \<and> roundPowers (- 2147483648) = 16"
  using roundPowers_classifies [of 100] roundPowers_classifies [of 0]
    roundPowers_classifies [of "- 7"] roundPowers_classifies [of 2048]
    roundPowers_classifies [of 2049] roundPowers_classifies [of "- 2147483648"]
  by (simp add: roundPowers_def word_sle_eq size_classes_def)

section \<open>The usable-size query\<close>

lemma page_start_examples:
  "page_start 0x3810 = 0x3000" "page_start 0x5010 = 0x5000"
  by (simp_all add: page_start_def signed_modulo_int_def)

lemma header_examples:
  "load32 (store64 (store32 (\<lambda>_. 0) 0x3000 MAGIC_NUMBER) 0x3008 2048) 0x3000 = MAGIC_NUMBER"
  "load64 (store64 (store32 (\<lambda>_. 0) 0x3000 MAGIC_NUMBER) 0x3008 2048) 0x3008 = 2048"
  "load32 (store64 (store32 (\<lambda>_. 0) 0x3000 MAGIC_NUMBER) 0x3008 2048) 0x5000 \<noteq> MAGIC_NUMBER"
  by (simp_all add: load32_def load64_def store64_def store32_def store_le_def byte_of_def
      MAGIC_NUMBER_def)

text \<open>
  C6. The query answers 0 for the null pointer. For any other pointer it reads the header
  at \<open>page_start\<close>: when the tag is not the sentinel it answers \<open>- 1\<close>, the largest
  \<^verbatim>\<open>size_t\<close>, which is neither 0 nor a size class; when the tag is the sentinel it answers
  the recorded block size as it stands.
\<close>

theorem usable_size_cases:
  "xxmalloc_usable_size st 0 = 0 \<and>
   (ptr \<noteq> 0 \<and> load32 (mem st) (page_start ptr) \<noteq> MAGIC_NUMBER \<longrightarrow>
      xxmalloc_usable_size st ptr = - 1) \<and>
   (- 1 :: addr) \<noteq> 0 \<and> (\<forall>c \<in> set size_classes. (- 1 :: addr) \<noteq> word_of_nat c) \<and>
   (ptr \<noteq> 0 \<and> load32 (mem st) (page_start ptr) = MAGIC_NUMBER \<longrightarrow>
      xxmalloc_usable_size st ptr = load64 (mem st) (page_start ptr + 8)) \<and>
   (0 \<le>s ptr \<longrightarrow> page_start ptr = ptr - ptr mod 0x1000)"
  by (simp add: xxmalloc_usable_size_def Let_def size_classes_def page_start_nonneg)

theorem usable_size_cases_witness:
  "xxmalloc_usable_size
     (init [] \<lparr>mem := store64 (store32 (\<lambda>_. 0) 0x3000 MAGIC_NUMBER) 0x3008 2048\<rparr>) 0x3810 = 2048 \<and>
   xxmalloc_usable_size
     (init [] \<lparr>mem := store64 (store32 (\<lambda>_. 0) 0x3000 MAGIC_NUMBER) 0x3008 2048\<rparr>) 0x5010 = - 1"
  using
    usable_size_cases [of "init [] \<lparr>mem := store64 (store32 (\<lambda>_. 0) 0x3000 MAGIC_NUMBER) 0x3008 2048\<rparr>" "0x3810"]
    usable_size_cases [of "init [] \<lparr>mem := store64 (store32 (\<lambda>_. 0) 0x3000 MAGIC_NUMBER) 0x3008 2048\<rparr>" "0x5010"]
  by (simp add: page_start_examples header_examples)

section \<open>Freeing a pointer whose page is not tagged\<close>



section \<open>What the page carver returns\<close>

text \<open>
  C2. Given a size class \<open>c\<close> and a page \<open>pg\<close> from the operating system,
  \<^verbatim>\<open>allocate_blocks\<close> returns the address at offset \<open>c\<close>, and in the memory it leaves the
  page starts with the tag and \<open>c\<close>, every block but the last links to the address \<open>c\<close>
  bytes further, the last block, at offset \<open>4096 - c\<close>, links to null, and the list that
  starts at the returned address is made of the blocks at offsets \<open>c\<close>, \<open>2 * c\<close>, ... up
  to \<open>4096 - c\<close>, in increasing order of address.
\<close>

theorem carve_page:
  assumes "c \<in> set size_classes" "os st = pg # rest" "page_aligned pg"
  shows "\<exists>m'. allocate_blocks st (word_of_nat c) =
           Inr (pg + word_of_nat c, st\<lparr>os := rest, mem := m', carved := carved st @ [pg]\<rparr>) \<and>
         load32 m' pg = MAGIC_NUMBER \<and> load64 m' (pg + 8) = word_of_nat c \<and>
         (\<forall>j. 1 \<le> j \<and> Suc j < 4096 div c \<longrightarrow>
              load64 m' (pg + word_of_nat (j * c)) = pg + word_of_nat (j * c) + word_of_nat c) \<and>
         load64 m' (pg + 0x1000 - word_of_nat c) = 0 \<and>
         chain m' 4096 (pg + word_of_nat c) = map (blk pg c) [1..<4096 div c] \<and>
         sorted_wrt (<) (map (blk pg c) [1..<4096 div c])"
proof -
  have cf: "16 dvd c" "16 \<le> c" "c \<le> 2048" "(4096 div c) * c = 4096" "2 \<le> 4096 div c"
    "4096 div c \<le> 256"
    using class_facts [OF assms(1)] by simp_all
  obtain m' where
    res: "allocate_blocks st (word_of_nat c) =
           Inr (blk pg c 1, st\<lparr>os := rest, mem := m', carved := carved st @ [pg]\<rparr>)" and
    hdr: "header_at m' pg (word_of_nat c)" and
    lnk: "\<forall>j. 1 \<le> j \<and> Suc j < 4096 div c \<longrightarrow> load64 m' (blk pg c j) = blk pg c (Suc j)" and
    lst: "load64 m' (blk pg c (4096 div c - 1)) = 0"
    using allocate_blocks_carves [OF assms] by blast
  have b1: "blk pg c 1 = pg + word_of_nat c"
    by (simp add: blk_def)
  have lastb: "pg + 0x1000 - word_of_nat c = blk pg c (4096 div c - 1)"
    by (rule last_block) (use cf in simp_all)
  have "chain m' 4096 (blk pg c 1) = map (blk pg c) [1..<4096 div c]"
    by (rule chain_links [OF assms(3) _ cf(4) lnk lst]) (use cf in simp_all)
  moreover have "sorted_wrt (<) (map (blk pg c) [1..<4096 div c])"
    by (rule blk_increasing [OF assms(3) _ cf(4)]) (use cf in simp)
  moreover have "\<forall>j. 1 \<le> j \<and> Suc j < 4096 div c \<longrightarrow>
              load64 m' (pg + word_of_nat (j * c)) = pg + word_of_nat (j * c) + word_of_nat c"
    using lnk by (simp add: blk_def add.assoc add.commute)
  ultimately show ?thesis
    using res hdr lst unfolding b1 lastb header_at_def by blast
qed

theorem carve_page_witness:
  "\<exists>m'. allocate_blocks (init [0x3000]) 1024 =
          Inr (0x3400, init [0x3000] \<lparr>os := [], mem := m', carved := [0x3000]\<rparr>) \<and>
        load32 m' 0x3000 = MAGIC_NUMBER \<and> load64 m' 0x3008 = 1024 \<and>
        load64 m' 0x3C00 = 0 \<and>
        chain m' 4096 0x3400 = [0x3400, 0x3800, 0x3C00]"
proof -
  have "(1024::nat) \<in> set size_classes" "os (init [0x3000]) = [0x3000]" "page_aligned 0x3000"
    by (simp_all add: size_classes_def init_def page_aligned_def)
  from carve_page [OF this] show ?thesis
    by (auto simp add: init_def blk_def upt_rec)
qed

section \<open>The usable size of an allocation\<close>

text \<open>
  In every state that satisfies the invariant, whatever its free lists hold, a request of
  at most 2048 bytes that returns gives a pointer whose usable size is a size class, is
  not below the request, and is not above any size class that is not below the request.
  The request returns unless the free list is empty and the operating system refuses the
  page, in which case the process exits. The invariant holds in every state reached
  without a free of a pointer that is not the start of a block (\<open>reachable_wf\<close>).
\<close>

lemma allocation_usable_size:
  assumes "wf st" "n \<le> 2048"
  shows "(\<forall>p st'. xxmalloc st n = Inr (p, st') \<longrightarrow>
            unat (xxmalloc_usable_size st' p) \<in> set size_classes \<and>
            unat n \<le> unat (xxmalloc_usable_size st' p) \<and>
            (\<forall>c \<in> set size_classes. unat n \<le> c \<longrightarrow> unat (xxmalloc_usable_size st' p) \<le> c)) \<and>
         ((\<exists>p st'. xxmalloc st n = Inr (p, st')) \<or>
          (os st = [] \<or> hd (os st) = MAP_FAILED) \<and>
          (\<exists>st'. xxmalloc st n = Inl (Exit EXIT_FAILURE, st')))"
proof -
  obtain c where c: "c \<in> set size_classes" "roundPowers (ucast n) = word_of_nat c" "unat n \<le> c"
    "\<forall>c' \<in> set size_classes. unat n \<le> c' \<longrightarrow> c \<le> c'"
    using roundPowers_small [OF assms(2)] by blast
  obtain i where i: "i < 8" "c = size_classes ! i"
    using class_index [OF c(1)] by blast
  have rp: "roundPowers (ucast n) = word_of_nat (size_classes ! i)"
    using c(2) i(2) by simp
  have uc: "unat (word_of_nat c :: addr) = c"
    using class_facts [OF c(1)] by (simp add: unat_of_nat)
  have "unat (xxmalloc_usable_size st' p) = c" if "xxmalloc st n = Inr (p, st')" for p st'
  proof -
    have "is_block st' i p \<and> wf st'"
      using xxmalloc_small_cases [OF assms i(1) rp] that by auto
    then have "xxmalloc_usable_size st' p = word_of_nat c"
      using usable_size_block [of st' i p] i by simp
    then show ?thesis by (simp only: uc)
  qed
  then show ?thesis
    using c(1,3,4) xxmalloc_small_cases [OF assms i(1) rp] by auto
qed

lemma allocation_usable_size_witness:
  "\<exists>p st'. xxmalloc (init [0x3000]) 100 = Inr (p, st') \<and> xxmalloc_usable_size st' p = 128"
proof -
  have w: "wf (init [0x3000])"
    by (rule wf_init) (simp_all add: user_page_example)
  have n: "(100 :: addr) \<le> 2048" by simp
  note t = allocation_usable_size [OF w n]
  have "os (init [0x3000]) \<noteq> []" "hd (os (init [0x3000])) \<noteq> MAP_FAILED"
    by (simp_all add: init_def MAP_FAILED_def)
  then obtain p st' where r: "xxmalloc (init [0x3000]) 100 = Inr (p, st')"
    using t by blast
  let ?u = "unat (xxmalloc_usable_size st' p)"
  have "?u \<in> set size_classes" "100 \<le> ?u" "?u \<le> 128"
    using t r by (auto simp: size_classes_def)
  then have "?u = 128" by (auto simp: size_classes_def)
  then have "xxmalloc_usable_size st' p = 128"
    by (simp add: word_eq_iff_unsigned [where ?'a = nat])
  then show ?thesis using r by blast
qed

text \<open>
  C1. The usable size of the pointer a request returns is not the size class of the
  request in every allocator state. \<^verbatim>\<open>xxfree\<close> takes ``a pointer somewhere inside the
  object'' and stores the link at that pointer without rounding it down to the start of
  its block. With the pages at \<open>0x3000\<close> and \<open>0x2000\<close> carved for 2048 bytes, free the
  block \<open>0x3800\<close> and then the pointer \<open>0x2800 + 0x7F9\<close> inside the block \<open>0x2800\<close>: the
  link written at \<open>0x2FF9\<close> ends on the first byte of the header at \<open>0x3000\<close>. The next
  two requests of 2048 bytes return \<open>0x2FF9\<close> and then \<open>0x3800\<close>, and the usable size of
  \<open>0x3800\<close>, the pointer just returned, is \<open>- 1\<close> and not 2048.
\<close>

theorem allocation_after_interior_free:
  "\<exists>st1 st2 st3 st4 st5 st6.
     xxmalloc (init [0x3000, 0x2000]) 2048 = Inr (0x3800, st1) \<and>
     xxmalloc st1 2048 = Inr (0x2800, st2) \<and>
     xxfree st2 0x3800 = Inr st3 \<and>
     xxfree st3 (0x2800 + 0x7F9) = Inr st4 \<and>
     xxmalloc st4 2048 = Inr (0x2FF9, st5) \<and>
     xxmalloc st5 2048 = Inr (0x3800, st6) \<and>
     xxmalloc_usable_size st6 0x3800 = - 1 \<and>
     (- 1 :: addr) \<noteq> 2048"
proof -
  note n = class_2048
  obtain st1 st2 where
    a1: "xxmalloc (init [0x3000, 0x2000]) 2048 = Inr (0x3800, st1)" and
    a2: "xxmalloc st1 2048 = Inr (0x2800, st2)" and
    w2: "wf st2" and b1: "is_block st2 7 0x3800" and b2: "is_block st2 7 0x2800" and
    h2: "freelists st2 ! 7 = 0" "length (freelists st2) = 8"
    by (rule two_carved_pages)
  define st3 where "st3 = st2\<lparr>mem := store64 (mem st2) 0x3800 (freelists st2 ! 7),
                               freelists := (freelists st2)[7 := 0x3800]\<rparr>"
  note f = xxfree_block [OF w2 n(2) b1]
  have f3: "xxfree st2 0x3800 = Inr st3" and w3: "wf st3" and b3: "is_block st3 7 0x2800"
    using f b2 by (simp_all only: st3_def)
  have h3: "freelists st3 ! 7 = 0x3800" "length (freelists st3) = 8"
    using h2 by (simp_all add: st3_def)
  have up3: "\<forall>pg \<in> set (carved st3). user_page pg"
    using w3 by (simp add: wf_def)
  have "header_at (mem st3) (page_start 0x2FF9) (word_of_nat (size_classes ! 7))"
    using is_block_props(4) [OF b3 up3] by (simp add: scenario_numbers)
  then have "xxfree st3 0x2FF9 =
      Inr (st3\<lparr>mem := store64 (mem st3) 0x2FF9 (freelists st3 ! 7),
               freelists := (freelists st3)[7 := 0x2FF9]\<rparr>)"
    by (intro xxfree_push) simp_all
  then obtain st4 where f4: "xxfree st3 0x2FF9 = Inr st4" and
    m4: "mem st4 = store64 (mem st3) 0x2FF9 0x3800" and
    h4: "freelists st4 = (freelists st3)[7 := 0x2FF9]"
    by (simp add: h3)
  have "freelists st4 ! 7 = 0x2FF9" using h3 by (simp add: h4)
  then have "xxmalloc st4 2048 =
      Inr (0x2FF9, st4\<lparr>freelists := (freelists st4)[7 := load64 (mem st4) 0x2FF9]\<rparr>)"
    using xxmalloc_pop [OF n, of st4] by simp
  then obtain st5 where a5: "xxmalloc st4 2048 = Inr (0x2FF9, st5)" and
    m5: "mem st5 = mem st4" and h5: "freelists st5 = (freelists st4)[7 := 0x3800]"
    by (simp add: m4 load64_store64)
  have "freelists st5 ! 7 = 0x3800" using h3 by (simp add: h5 h4)
  then have "xxmalloc st5 2048 =
      Inr (0x3800, st5\<lparr>freelists := (freelists st5)[7 := load64 (mem st5) 0x3800]\<rparr>)"
    using xxmalloc_pop [OF n, of st5] by simp
  then obtain st6 where a6: "xxmalloc st5 2048 = Inr (0x3800, st6)" and
    m6: "mem st6 = mem st5"
    by simp
  have "mem st6 0x3000 = 0"
    by (simp only: m6 m5 m4 link_reaches_next_page)
  then have u: "xxmalloc_usable_size st6 0x3800 = - 1"
    by (rule untagged_usable_size)
  show ?thesis
    using a1 a2 f3 f4 a5 a6 u by (simp add: scenario_numbers)
qed

section \<open>Last freed, first reused\<close>

text \<open>
  Let \<open>p\<close> be returned by a request of at most 2048 bytes in a state that satisfies the
  invariant. After any further calls that keep the invariant, \<open>p\<close> is freed; then, after
  any such calls that are not on the free list of \<open>p\<close>'s class, the next request of a size
  in that class returns \<open>p\<close>.
\<close>

lemma lifo_reuse:
  assumes "wf st0" "n \<le> 2048" "xxmalloc st0 n = Inr (p, st1)"
    "reaches {} st1 st2" "xxfree st2 p = Inr st3"
    "i < 8" "roundPowers (ucast n) = word_of_nat (size_classes ! i)"
    "reaches {i} st3 st4"
    "n' \<le> 2048" "roundPowers (ucast n') = roundPowers (ucast n)"
  shows "\<exists>st5. xxmalloc st4 n' = Inr (p, st5)"
proof -
  have b1: "is_block st1 i p" and w1: "wf st1"
    using xxmalloc_small_cases [OF assms(1,2,6,7)] assms(3) by auto
  have w2: "wf st2" and b2: "is_block st2 i p"
    using reaches_invariant [OF assms(4) w1] b1 by auto
  note f = xxfree_block [OF w2 assms(6) b2]
  have st3: "st3 = st2\<lparr>mem := store64 (mem st2) p (freelists st2 ! i),
                       freelists := (freelists st2)[i := p]\<rparr>"
    using f(1) assms(5) by simp
  have w3: "wf st3" using f(2) by (simp only: st3)
  have "length (freelists st2) = 8" using w2 by (simp add: wf_def)
  then have h3: "freelists st3 ! i = p" using assms(6) by (simp add: st3)
  have "freelists st4 ! i = freelists st3 ! i"
    using reaches_invariant [OF assms(8) w3] by simp
  then have h4: "freelists st4 ! i = p" using h3 by simp
  have "p \<noteq> 0"
    using is_block_props(1) [OF b1] w1 by (simp add: wf_def)
  then have nz: "freelists st4 ! i \<noteq> 0" using h4 by simp
  have rp: "roundPowers (ucast n') = word_of_nat (size_classes ! i)"
    using assms(7,10) by simp
  show ?thesis
    using xxmalloc_pop [OF assms(9,6) rp nz] h4 by simp
qed

lemma lifo_reuse_witness:
  "\<exists>p st1 st3 st5.
     xxmalloc (init [0x3000]) 2000 = Inr (p, st1) \<and> xxfree st1 p = Inr st3 \<and>
     xxmalloc st3 1500 = Inr (p, st5)"
proof -
  have w: "wf (init [0x3000])"
    by (rule wf_init) (simp_all add: user_page_example)
  have n: "(2000 :: addr) \<le> 2048" "(7::nat) < 8"
    "roundPowers (ucast (2000 :: addr)) = word_of_nat (size_classes ! 7)"
    "(1500 :: addr) \<le> 2048"
    "roundPowers (ucast (1500 :: addr)) = roundPowers (ucast (2000 :: addr))"
    by (simp_all add: roundPowers_def word_sle_eq size_classes_def)
  have "os (init [0x3000]) \<noteq> []" "hd (os (init [0x3000])) \<noteq> MAP_FAILED"
    by (simp_all add: init_def MAP_FAILED_def)
  then obtain p st1 where a: "xxmalloc (init [0x3000]) 2000 = Inr (p, st1)"
    and b: "is_block st1 7 p" and w1: "wf st1"
    using xxmalloc_small_cases [OF w n(1,2,3)] by blast
  obtain st3 where f: "xxfree st1 p = Inr st3"
    using xxfree_block(1) [OF w1 n(2) b] by blast
  from lifo_reuse [OF w n(1) a reaches.start f n(2,3) reaches.start n(4,5)]
  show ?thesis using a f by blast
qed

text \<open>
  C4. A freed pointer is not always the next one returned for its class. With the pages
  at \<open>0x3000\<close> and \<open>0x2000\<close> carved for 2048 bytes and both blocks allocated, freeing the
  pointer \<open>0x2800 + 0x7F9\<close> inside the second block stores the link at \<open>0x2FF9\<close> and
  overwrites the low byte of the tag at \<open>0x3000\<close>. The free of \<open>0x3800\<close>, a pointer that
  \<^verbatim>\<open>xxmalloc\<close> returned and that has not been freed, is then refused with the diagnostic
  for a foreign pointer, and the next request of 2048 bytes returns \<open>0x2FF9\<close>.
\<close>

theorem refused_free_breaks_reuse:
  "\<exists>st1 st2 st3 st4 st5.
     xxmalloc (init [0x3000, 0x2000]) 2048 = Inr (0x3800, st1) \<and>
     xxmalloc st1 2048 = Inr (0x2800, st2) \<and>
     xxfree st2 (0x2800 + 0x7F9) = Inr st3 \<and>
     xxfree st3 0x3800 = Inr st4 \<and>
     st4 = perror st3 ''pointer not allocated using custom malloc'' \<and>
     xxmalloc st4 2048 = Inr (0x2FF9, st5) \<and> (0x2FF9 :: addr) \<noteq> 0x3800"
proof -
  note n = class_2048
  obtain st1 st2 where
    a1: "xxmalloc (init [0x3000, 0x2000]) 2048 = Inr (0x3800, st1)" and
    a2: "xxmalloc st1 2048 = Inr (0x2800, st2)" and
    w2: "wf st2" and b2: "is_block st2 7 0x2800" and
    h2: "freelists st2 ! 7 = 0" "length (freelists st2) = 8"
    by (rule two_carved_pages)
  have up2: "\<forall>pg \<in> set (carved st2). user_page pg"
    using w2 by (simp add: wf_def)
  have "header_at (mem st2) (page_start 0x2FF9) (word_of_nat (size_classes ! 7))"
    using is_block_props(4) [OF b2 up2] by (simp add: scenario_numbers)
  then have "xxfree st2 0x2FF9 =
      Inr (st2\<lparr>mem := store64 (mem st2) 0x2FF9 (freelists st2 ! 7),
               freelists := (freelists st2)[7 := 0x2FF9]\<rparr>)"
    by (intro xxfree_push) simp_all
  then obtain st3 where f3: "xxfree st2 0x2FF9 = Inr st3" and
    m3: "mem st3 = store64 (mem st2) 0x2FF9 0" and
    h3: "freelists st3 = (freelists st2)[7 := 0x2FF9]"
    by (simp add: h2)
  have "mem st3 0x3000 = 0"
    by (simp only: m3 link_reaches_next_page)
  then have "xxmalloc_usable_size st3 0x3800 = - 1"
    by (rule untagged_usable_size)
  then have f4: "xxfree st3 0x3800 = Inr (perror st3 ''pointer not allocated using custom malloc'')"
    by (simp add: xxfree_def)
  define st4 where "st4 = perror st3 ''pointer not allocated using custom malloc''"
  have "freelists st4 ! 7 = 0x2FF9"
    using h2 by (simp add: st4_def perror_def h3)
  then have "xxmalloc st4 2048 =
      Inr (0x2FF9, st4\<lparr>freelists := (freelists st4)[7 := load64 (mem st4) 0x2FF9]\<rparr>)"
    using xxmalloc_pop [OF n, of st4] by simp
  then show ?thesis
    using a1 a2 f3 f4 by (simp add: scenario_numbers st4_def)
qed

section \<open>Pages carved by a run of allocations\<close>

text \<open>
  C3. Start with the free list of a class empty, and let the operating system answer
  with distinct aligned pages. Then \<open>k\<close> successive requests of sizes in that class all
  return, the pages carved on the way are exactly the first \<open>pages_needed k c\<close> answers
  of the operating system, that is \<open>k / blocks_per_page c\<close> rounded up, and no two of the
  \<open>k\<close> blocks returned share an address.
\<close>

theorem carve_events_of_run:
  assumes "i < 8" "length (freelists st) = 8" "freelists st ! i = 0"
    "\<forall>n \<in> set ns. n \<le> 2048 \<and> roundPowers (ucast n) = word_of_nat (size_classes ! i)"
    "pages_needed (length ns) (size_classes ! i) \<le> length (os st)"
    "\<forall>r \<in> set (take (pages_needed (length ns) (size_classes ! i)) (os st)). page_aligned r"
    "distinct (take (pages_needed (length ns) (size_classes ! i)) (os st))"
  shows "\<exists>ps st'. xxmalloc_all st ns = Inr (ps, st') \<and> length ps = length ns \<and>
           carved st' = carved st @ take (pages_needed (length ns) (size_classes ! i)) (os st) \<and>
           (\<forall>a < length ns. \<forall>b < length ns. a \<noteq> b \<longrightarrow>
              \<not> overlap (ps ! a) (ps ! b) (size_classes ! i))"
proof -
  define c where "c = size_classes ! i"
  define N where "N = 4096 div c"
  define k where "k = length ns"
  define need where "need = pages_needed k c"
  define F where "F = (\<lambda>r. map (blk r c) [1..<N])"
  define T where "T = take need (os st)"
  define prod where "prod = List.product T [1..<N]"
  define g where "g = (\<lambda>(r, j). blk r c j)"
  have cin: "c \<in> set size_classes"
    unfolding c_def by (rule class_nth [OF assms(1)])
  have N2: "2 \<le> N" using class_facts [OF cin] by (simp add: N_def)
  have B: "blocks_per_page c = N - 1" by (simp add: blocks_per_page_def N_def)
  have Bpos: "0 < blocks_per_page c" using N2 B by simp
  have nd: "need = (k + (N - 1) - 1) div (N - 1)"
    by (simp add: need_def pages_needed_def B)
  obtain st' where
    run: "xxmalloc_all st ns = Inr (take k (concat (map F (os st))), st')" and
    cv: "carved st' = carved st @ take need (os st)"
    using xxmalloc_all_pages [OF assms(1) refl assms(2,3), of ns] assms(4,5,6)
    unfolding c_def [symmetric] N_def [symmetric] k_def [symmetric] nd [symmetric] need_def [symmetric]
      F_def [symmetric]
    by blast
  have lT: "length T = need"
    using assms(5) by (simp add: T_def need_def k_def c_def)
  have "length (concat (map F T)) = length T * (N - 1)"
    by (rule length_concat_uniform) (simp add: F_def)
  then have lc: "length (concat (map F T)) = need * (N - 1)"
    by (simp only: lT)
  have kle: "k \<le> need * (N - 1)"
    using pages_needed_ceiling(1) [OF Bpos, of k] by (simp add: need_def B)
  have "concat (map F (os st)) = concat (map F T) @ concat (map F (drop need (os st)))"
    unfolding T_def by (simp only: map_append [symmetric] concat_append [symmetric] append_take_drop_id)
  then have "take k (concat (map F (os st))) = take k (concat (map F T))"
    using kle lc by simp
  also have "concat (map F T) = map g prod"
    unfolding F_def g_def prod_def by (rule concat_product)
  finally have ps: "take k (concat (map F (os st))) = map g (take k prod)"
    by (simp only: take_map)
  have lp: "length prod = need * (N - 1)"
    by (simp add: prod_def lT)
  have len: "length (map g (take k prod)) = k"
    using kle lp by simp
  have dT: "distinct T" "\<forall>r \<in> set T. page_aligned r"
    using assms(6,7) by (simp_all add: T_def need_def k_def c_def)
  have dp: "distinct (take k prod)"
    unfolding prod_def using dT(1) by (intro distinct_take distinct_product) simp_all
  have sep: "\<not> overlap (map g (take k prod) ! a) (map g (take k prod) ! b) c"
    if "a < k" "b < k" "a \<noteq> b" for a b
  proof -
    have la: "a < length (take k prod)" "b < length (take k prod)"
      using that kle lp by simp_all
    obtain P ja where pa: "take k prod ! a = (P, ja)" by (cases "take k prod ! a")
    obtain Q jb where pb: "take k prod ! b = (Q, jb)" by (cases "take k prod ! b")
    have "take k prod ! a \<noteq> take k prod ! b"
      using that(3) by (simp only: nth_eq_iff_index_eq [OF dp la]) simp
    then have ne: "(P, ja) \<noteq> (Q, jb)"
      unfolding pa pb .
    have "(P, ja) \<in> set prod" "(Q, jb) \<in> set prod"
      using nth_mem [OF la(1)] nth_mem [OF la(2)] pa pb by (auto dest: in_set_takeD)
    then have m: "P \<in> set T" "Q \<in> set T" "1 \<le> ja" "ja < N" "1 \<le> jb" "jb < N"
      by (auto simp: prod_def)
    have "\<not> overlap (blk P c ja) (blk Q c jb) c"
      using cin dT(2) m ne unfolding N_def by (intro no_overlap_blocks) auto
    then show ?thesis
      using la pa pb by (simp add: g_def)
  qed
  have "xxmalloc_all st ns = Inr (map g (take k prod), st')"
    using run ps by simp
  then show ?thesis
    using len cv sep unfolding k_def need_def c_def by blast
qed

theorem carve_events_of_run_witness:
  "\<exists>ps st'. xxmalloc_all (init [0x3000, 0x2000]) [1024, 1000, 600, 513] = Inr (ps, st') \<and>
      length ps = 4 \<and> carved st' = [0x3000, 0x2000] \<and>
      (\<forall>a<4. \<forall>b<4. a \<noteq> b \<longrightarrow> \<not> overlap (ps ! a) (ps ! b) 1024)"
proof -
  let ?st = "init [0x3000, 0x2000]"
  let ?ns = "[1024, 1000, 600, 513] :: addr list"
  have p: "pages_needed (length ?ns) (size_classes ! 6) = 2"
    by (simp add: pages_needed_def blocks_per_page_def size_classes_def)
  have "(6::nat) < 8" "length (freelists ?st) = 8" "freelists ?st ! 6 = 0"
    "\<forall>n \<in> set ?ns. n \<le> 2048 \<and> roundPowers (ucast n) = word_of_nat (size_classes ! 6)"
    "pages_needed (length ?ns) (size_classes ! 6) \<le> length (os ?st)"
    "\<forall>r \<in> set (take (pages_needed (length ?ns) (size_classes ! 6)) (os ?st)). page_aligned r"
    "distinct (take (pages_needed (length ?ns) (size_classes ! 6)) (os ?st))"
    unfolding p
    by (simp_all add: init_def size_classes_def roundPowers_def word_sle_eq page_aligned_def
        nth_Cons')
  note t = carve_events_of_run [OF this]
  have l: "length ?ns = 4" by simp
  have c6: "size_classes ! 6 = 1024" by (simp add: size_classes_def)
  have p2: "pages_needed 4 1024 = 2"
    by (simp add: pages_needed_def blocks_per_page_def)
  have cv: "carved ?st @ take 2 (os ?st) = [0x3000, 0x2000]"
    by (simp add: init_def)
  show ?thesis
    using t unfolding l c6 p2 cv .
qed

section \<open>Diagnostics when the operating system refuses memory\<close>

text \<open>
  C9. With no memory to be had from the operating system, the process ends on both
  paths and no failure is returned to the caller. A request for a block reports through
  \<^verbatim>\<open>perror\<close> and exits with \<open>EXIT_FAILURE\<close>; only a request above 2048 bytes reports
  through \<^verbatim>\<open>log_message\<close>, and exits with code 2.
\<close>

theorem mapping_failure_diagnostics:
  "(\<exists>st'. xxmalloc (init []) 16 = Inl (Exit EXIT_FAILURE, st') \<and>
          diags st' = [Perror ''failed to allocate space'']) \<and>
   (\<exists>st'. xxmalloc (init []) 4096 = Inl (Exit 2, st') \<and>
          diags st' = [Log_message (''mmap failed! Giving up.'' @ [CHR 0x0A])])"
proof
  have "(16 :: addr) \<le> 2048" "(0::nat) < 8"
    "roundPowers (ucast (16 :: addr)) = word_of_nat (size_classes ! 0)"
    "freelists (init []) ! 0 = 0" "os (init []) = [] \<or> hd (os (init [])) = MAP_FAILED"
    by (simp_all add: roundPowers_def word_sle_eq size_classes_def init_def)
  from xxmalloc_carve_fails [OF this]
  show "\<exists>st'. xxmalloc (init []) 16 = Inl (Exit EXIT_FAILURE, st') \<and>
          diags st' = [Perror ''failed to allocate space'']"
    by (simp add: init_def)
  show "\<exists>st'. xxmalloc (init []) 4096 = Inl (Exit 2, st') \<and>
          diags st' = [Log_message (''mmap failed! Giving up.'' @ [CHR 0x0A])]"
    by (simp add: xxmalloc_def init_def mmap_def ROUND_UP_def PAGE_SIZE_def log_message_def)
qed

section \<open>A free that overwrites the header of the next page\<close>

text \<open>
  C8. The operating system answers with the page at \<open>0x3000\<close> and then with the page
  below it. Two requests of 2048 bytes carve both pages and return \<open>0x3800\<close> and
  \<open>0x2800\<close>. Freeing a pointer into the last bytes of the second block, \<open>0x2800 + 0x7F9\<close>,
  stores the link at that pointer: its last byte falls on the first byte of the page at
  \<open>0x3000\<close>, a carved page whose header carried the tag before and does not carry it
  afterwards, so that the usable size of the first block changes from 2048 to \<open>- 1\<close>.
\<close>

theorem interior_free_overwrites_next_header:
  "\<exists>p1 st1 p2 st2 st3.
     xxmalloc (init [0x3000, 0x2000]) 2048 = Inr (p1, st1) \<and> p1 = 0x3800 \<and>
     xxmalloc st1 2048 = Inr (p2, st2) \<and> p2 = 0x2800 \<and>
     carved st2 = [0x3000, 0x2000] \<and>
     load32 (mem st2) 0x3000 = MAGIC_NUMBER \<and> xxmalloc_usable_size st2 p1 = 2048 \<and>
     xxfree st2 (p2 + 0x7F9) = Inr st3 \<and>
     carved st3 = [0x3000, 0x2000] \<and>
     load32 (mem st3) 0x3000 \<noteq> MAGIC_NUMBER \<and> xxmalloc_usable_size st3 p1 = - 1"
proof -
  note n = class_2048
  obtain st1 st2 where
    a1: "xxmalloc (init [0x3000, 0x2000]) 2048 = Inr (0x3800, st1)" and
    a2: "xxmalloc st1 2048 = Inr (0x2800, st2)" and
    w2: "wf st2" and b12: "is_block st2 7 0x3800" and b2: "is_block st2 7 0x2800" and
    h2: "freelists st2 ! 7 = 0" "length (freelists st2) = 8" and
    c2: "carved st2 = [0x3000, 0x2000]"
    by (rule two_carved_pages)
  have up2: "\<forall>pg \<in> set (carved st2). user_page pg"
    using w2 by (simp add: wf_def)
  have hd1: "header_at (mem st2) 0x3000 2048"
    using is_block_props(4) [OF b12 up2] by (simp add: scenario_numbers)
  have hd2: "header_at (mem st2) 0x2000 2048"
    using is_block_props(4) [OF b2 up2] by (simp add: scenario_numbers)
  have u2: "xxmalloc_usable_size st2 0x3800 = 2048"
    using usable_size_block [OF w2 n(2) b12] by (simp add: scenario_numbers)
  define st3 where "st3 = st2\<lparr>mem := store64 (mem st2) 0x2FF9 (freelists st2 ! 7),
                               freelists := (freelists st2)[7 := 0x2FF9]\<rparr>"
  have "header_at (mem st2) (page_start 0x2FF9) (word_of_nat (size_classes ! 7))"
    using hd2 by (simp add: scenario_numbers)
  then have f: "xxfree st2 0x2FF9 = Inr st3"
    unfolding st3_def by (intro xxfree_push) simp_all
  have "mem st3 0x3000 = 0"
    by (simp add: st3_def h2 store64_def store_le_def byte_of_def)
  then have bad: "load32 (mem st3) 0x3000 \<noteq> MAGIC_NUMBER"
    using tag_low_byte [of "mem st3" "0x3000"] by auto
  then have u3: "xxmalloc_usable_size st3 0x3800 = - 1"
    by (simp add: xxmalloc_usable_size_def scenario_numbers)
  have c3: "carved st3 = [0x3000, 0x2000]"
    using c2 by (simp add: st3_def)
  show ?thesis
    using a1 a2 c2 hd1 u2 f c3 bad u3 by (simp add: scenario_numbers header_at_def)
qed

section \<open>A freed pointer is the next one handed out\<close>

text \<open>
  C10. When the header found for a non-null pointer carries the tag and a size class,
  \<^verbatim>\<open>xxfree\<close> stores the old head of that class's list at the pointer itself and makes the
  pointer, as it was passed, the new head; the pointer is not rounded to the start of a
  block. The next \<^verbatim>\<open>xxmalloc\<close> of a size in that class returns this very pointer, and puts
  the old head back.
\<close>

theorem free_then_allocate_same_pointer:
  assumes "ptr \<noteq> 0" "i < 8" "header_at (mem st) (page_start ptr) (word_of_nat (size_classes ! i))"
    "length (freelists st) = 8" "n \<le> 2048" "roundPowers (ucast n) = word_of_nat (size_classes ! i)"
  shows "\<exists>st1 st2. xxfree st ptr = Inr st1 \<and>
           mem st1 = store64 (mem st) ptr (freelists st ! i) \<and>
           freelists st1 = (freelists st)[i := ptr] \<and>
           xxmalloc st1 n = Inr (ptr, st2) \<and> freelists st2 = freelists st"
  by (rule push_then_pop [OF assms])

theorem free_then_allocate_same_pointer_witness:
  "\<exists>st1 st2.
     xxfree (init [] \<lparr>mem := store64 (store32 (\<lambda>_. 0) 0x3000 MAGIC_NUMBER) 0x3008 2048\<rparr>) 0x3810
       = Inr st1 \<and>
     freelists st1 = (replicate 8 0)[7 := 0x3810] \<and>
     xxmalloc st1 2000 = Inr (0x3810, st2)"
proof -
  let ?st = "init [] \<lparr>mem := store64 (store32 (\<lambda>_. 0) 0x3000 MAGIC_NUMBER) 0x3008 2048\<rparr>"
  have "(0x3810 :: addr) \<noteq> 0" "(7::nat) < 8"
    "header_at (mem ?st) (page_start 0x3810) (word_of_nat (size_classes ! 7))"
    "length (freelists ?st) = 8" "(2000 :: addr) \<le> 2048"
    "roundPowers (ucast (2000 :: addr)) = word_of_nat (size_classes ! 7)"
    by (simp_all add: header_at_def page_start_examples header_examples size_classes_def init_def
        roundPowers_def word_sle_eq)
  from free_then_allocate_same_pointer [OF this] show ?thesis
    by (auto simp: init_def)
qed


end
